theory Spec2Isabelle
  imports Complex_Main "HOL-Library.Multiset"
begin

section \<open>Data model (types/circuit)\<close>

text \<open>
  The engine reads elements, their terminals and the wires. Layout fields (x, y,
  rotation, label, a wire's id and points) are never read by the engine and are left out of
  the records. Identifiers are JavaScript strings.
\<close>

datatype elementType = Resistor | VoltageSource | CurrentSource | VCVS

record terminal =
  tid :: string
  elementId :: string
  name :: string

record circuitElement =
  eid :: string
  etype :: elementType
  evalue :: real
  terminals :: "terminal list"

text \<open>
  \<open>startTerminalId?: string\<close> and \<open>endTerminalId?: string\<close> are optional: \<open>None\<close> is
  \<open>undefined\<close>.
\<close>

record wire =
  startTerminalId :: "string option"
  endTerminalId :: "string option"

record electricalNode =
  nid :: int
  nterminals :: "terminal list"

section \<open>Topology extraction (engine/graph, \<open>extractNodes\<close>)\<close>

text \<open>
  The disjoint-set forest is the \<open>Map<string, string>\<close> called \<open>parent\<close>. \<open>getParent\<close> mutates
  it (it inserts a missing key and compresses the path), so the model returns the new map
  together with the root. The recursion follows parent pointers and ends only on a forest
  without cycles; not returning is the value \<open>None\<close>.
\<close>

type_synonym parentMap = "string \<rightharpoonup> string"

partial_function (option) getParent :: "parentMap \<Rightarrow> string \<Rightarrow> (string \<times> parentMap) option" where
  "getParent parent i =
     (let parent1 = (if parent i = None then parent(i \<mapsto> i) else parent) in
      if the (parent1 i) \<noteq> i
      then Option.bind (getParent parent1 (the (parent1 i)))
             (\<lambda>(r, parent2). Some (r, parent2(i \<mapsto> r)))
      else Some (i, parent1))"

definition unionIds :: "parentMap \<Rightarrow> string \<Rightarrow> string \<Rightarrow> parentMap option" where
  "unionIds parent id1 id2 =
     Option.bind (getParent parent id1) (\<lambda>(root1, parent1).
     Option.bind (getParent parent1 id2) (\<lambda>(root2, parent2).
       Some (if root1 \<noteq> root2 then parent2(root1 \<mapsto> root2) else parent2)))"

text \<open>
  The test \<open>wire.startTerminalId && wire.endTerminalId\<close> is JavaScript truthiness: an
  endpoint counts when it is defined and not the empty string.
\<close>

definition truthy :: "string option \<Rightarrow> bool" where
  "truthy s = (case s of None \<Rightarrow> False | Some v \<Rightarrow> v \<noteq> [])"

fun connectWires :: "parentMap \<Rightarrow> wire list \<Rightarrow> parentMap option" where
  "connectWires parent [] = Some parent"
| "connectWires parent (w # ws) =
     (if truthy (startTerminalId w) \<and> truthy (endTerminalId w)
      then Option.bind (unionIds parent (the (startTerminalId w)) (the (endTerminalId w)))
             (\<lambda>parent1. connectWires parent1 ws)
      else connectWires parent ws)"

text \<open>
  \<open>nodeGroups\<close> is a \<open>Map<string, Terminal[]>\<close>; \<open>Array.from(nodeGroups.values())\<close> lists the
  groups in the order their keys were first inserted, so the model keeps an association
  list in insertion order.
\<close>

type_synonym nodeGroups = "(string \<times> terminal list) list"

fun pushTerminal :: "nodeGroups \<Rightarrow> string \<Rightarrow> terminal \<Rightarrow> nodeGroups" where
  "pushTerminal [] rt t = [(rt, [t])]"
| "pushTerminal ((k, ts) # g) rt t =
     (if k = rt then (k, ts @ [t]) # g else (k, ts) # pushTerminal g rt t)"

fun groupTerminals :: "parentMap \<Rightarrow> nodeGroups \<Rightarrow> terminal list \<Rightarrow> nodeGroups option" where
  "groupTerminals parent g [] = Some g"
| "groupTerminals parent g (t # ts) =
     Option.bind (getParent parent (tid t))
       (\<lambda>(rt, parent1). groupTerminals parent1 (pushTerminal g rt t) ts)"

text \<open>
  \<open>nodesData.sort((a, b) => b.terminals.length - a.terminals.length)\<close>: the sort of
  ECMAScript is stable, so the result is the stable sort by descending terminal count.
\<close>

definition sortNodes :: "electricalNode list \<Rightarrow> electricalNode list" where
  "sortNodes ns = sort_key (\<lambda>n. - int (length (nterminals n))) ns"

definition numberNodes :: "electricalNode list \<Rightarrow> electricalNode list" where
  "numberNodes ns = map (\<lambda>(i, n). n\<lparr>nid := int i\<rparr>) (enumerate 0 ns)"

definition allTerminals :: "circuitElement list \<Rightarrow> terminal list" where
  "allTerminals elements = concat (map terminals elements)"

definition extractNodes :: "circuitElement list \<Rightarrow> wire list \<Rightarrow> electricalNode list option" where
  "extractNodes elements wires =
     Option.bind (connectWires Map.empty wires) (\<lambda>parent.
     Option.bind (groupTerminals parent [] (allTerminals elements)) (\<lambda>nodeGroups.
       let nodesData = map (\<lambda>ts. \<lparr>nid = - 1, nterminals = ts\<rparr>) (map snd nodeGroups)
       in Some (numberNodes (sortNodes nodesData))))"


section \<open>Numbers\<close>

text \<open>
  JavaScript numbers are IEEE doubles. The model is an idealisation: a finite double is a
  real number (no rounding, no overflow) and every non-finite double (\<open>NaN\<close>, \<open>Infinity\<close>,
  \<open>-Infinity\<close>) is the one value \<open>NonFinite\<close>. The solver only adds, subtracts, multiplies,
  negates, takes absolute values and divides by an element's value; each of these gives a
  non-finite result as soon as an operand is non-finite, and a division by zero is
  non-finite. Element values are finite inputs.
\<close>

datatype number = Fin real | NonFinite

instantiation number :: "{plus, minus, times, uminus, abs}"
begin

definition plus_number :: "number \<Rightarrow> number \<Rightarrow> number" where
  "plus_number a b = (case (a, b) of (Fin x, Fin y) \<Rightarrow> Fin (x + y) | _ \<Rightarrow> NonFinite)"

definition minus_number :: "number \<Rightarrow> number \<Rightarrow> number" where
  "minus_number a b = (case (a, b) of (Fin x, Fin y) \<Rightarrow> Fin (x - y) | _ \<Rightarrow> NonFinite)"

definition times_number :: "number \<Rightarrow> number \<Rightarrow> number" where
  "times_number a b = (case (a, b) of (Fin x, Fin y) \<Rightarrow> Fin (x * y) | _ \<Rightarrow> NonFinite)"

definition uminus_number :: "number \<Rightarrow> number" where
  "uminus_number a = (case a of Fin x \<Rightarrow> Fin (- x) | NonFinite \<Rightarrow> NonFinite)"

definition abs_number :: "number \<Rightarrow> number" where
  "abs_number a = (case a of Fin x \<Rightarrow> Fin \<bar>x\<bar> | NonFinite \<Rightarrow> NonFinite)"

instance ..

end

definition ndiv :: "number \<Rightarrow> real \<Rightarrow> number" where
  "ndiv a d = (case a of Fin x \<Rightarrow> if d = 0 then NonFinite else Fin (x / d) | NonFinite \<Rightarrow> NonFinite)"

section \<open>The solver (engine/solver, \<open>solveCircuit\<close>)\<close>

text \<open>
  Exceptions that leave \<open>solveCircuit\<close>: \<open>TypeError\<close> is reading \<open>.id\<close> of a terminal slot that
  the element does not have; \<open>RangeError\<close> is an index outside a mathjs matrix.
\<close>

datatype error = TypeError | RangeError

fun bindE :: "error + 'a \<Rightarrow> ('a \<Rightarrow> error + 'b) \<Rightarrow> error + 'b" where
  "bindE (Inl e) f = Inl e"
| "bindE (Inr v) f = f v"

fun foldE :: "('s \<Rightarrow> 'a \<Rightarrow> error + 's) \<Rightarrow> 's \<Rightarrow> 'a list \<Rightarrow> error + 's" where
  "foldE f s [] = Inr s"
| "foldE f s (x # xs) = bindE (f s x) (\<lambda>s'. foldE f s' xs)"

record solverResult =
  nodeVoltages :: "int \<rightharpoonup> number"
  elementCurrents :: "string \<rightharpoonup> number"
  elementPower :: "string \<rightharpoonup> number"

definition emptyResult :: solverResult where
  "emptyResult = \<lparr>nodeVoltages = Map.empty, elementCurrents = Map.empty, elementPower = Map.empty\<rparr>"

subsection \<open>mathjs matrices\<close>

text \<open>
  A dense matrix is a list of rows; the column vectors \<open>z\<close> and \<open>x\<close> (matrices with one
  column) are lists. Indices are the integers the source computes. A read outside the
  matrix raises in mathjs, and the model reports a write outside the matrix as
  \<open>RangeError\<close> too. Assembly never leaves the matrix it allocated: node ids are at most the
  number of non-ground nodes and a source's row is below the size of the system (lemma
  \<open>assemble_ok\<close> below).
\<close>

type_synonym matrix = "number list list"

definition zerosMat :: "int \<Rightarrow> int \<Rightarrow> matrix" where
  "zerosMat r c = replicate (nat r) (replicate (nat c) (Fin 0))"

definition zerosVec :: "int \<Rightarrow> number list" where
  "zerosVec r = replicate (nat r) (Fin 0)"

definition inMat :: "matrix \<Rightarrow> int \<Rightarrow> int \<Rightarrow> bool" where
  "inMat A i j \<longleftrightarrow> 0 \<le> i \<and> i < int (length A) \<and> 0 \<le> j \<and> j < int (length (A ! nat i))"

definition matGet :: "matrix \<Rightarrow> int \<Rightarrow> int \<Rightarrow> error + number" where
  "matGet A i j = (if inMat A i j then Inr (A ! nat i ! nat j) else Inl RangeError)"

definition matSet :: "matrix \<Rightarrow> int \<Rightarrow> int \<Rightarrow> number \<Rightarrow> error + matrix" where
  "matSet A i j v =
     (if inMat A i j then Inr (A[nat i := (A ! nat i)[nat j := v]]) else Inl RangeError)"

definition vecGet :: "number list \<Rightarrow> int \<Rightarrow> error + number" where
  "vecGet z i = (if 0 \<le> i \<and> i < int (length z) then Inr (z ! nat i) else Inl RangeError)"

definition vecSet :: "number list \<Rightarrow> int \<Rightarrow> number \<Rightarrow> error + number list" where
  "vecSet z i v = (if 0 \<le> i \<and> i < int (length z) then Inr (z[nat i := v]) else Inl RangeError)"

subsection \<open>Node lookup\<close>

definition getNodeIndex :: "electricalNode list \<Rightarrow> string \<Rightarrow> int" where
  "getNodeIndex nodes terminalId =
     (case find (\<lambda>n. list_ex (\<lambda>t. tid t = terminalId) (nterminals n)) nodes of
        Some node \<Rightarrow> nid node
      | None \<Rightarrow> - 1)"

text \<open>\<open>element.terminals[k].id\<close>: the slot may be missing.\<close>

definition terminalIdAt :: "circuitElement \<Rightarrow> nat \<Rightarrow> error + string" where
  "terminalIdAt e k = (if k < length (terminals e) then Inr (tid (terminals e ! k)) else Inl TypeError)"

subsection \<open>Assembly of the MNA system\<close>

definition GMIN :: number where
  "GMIN = Fin (1 / 10 ^ 12)"

text \<open>\<open>A.set([i, j], A.get([i, j]) + v)\<close> and \<open>A.set([i, j], A.get([i, j]) - v)\<close>.\<close>

definition matAdd :: "matrix \<Rightarrow> int \<Rightarrow> int \<Rightarrow> number \<Rightarrow> error + matrix" where
  "matAdd A i j v = bindE (matGet A i j) (\<lambda>old. matSet A i j (old + v))"

definition matSub :: "matrix \<Rightarrow> int \<Rightarrow> int \<Rightarrow> number \<Rightarrow> error + matrix" where
  "matSub A i j v = bindE (matGet A i j) (\<lambda>old. matSet A i j (old - v))"

definition vecAdd :: "number list \<Rightarrow> int \<Rightarrow> number \<Rightarrow> error + number list" where
  "vecAdd z i v = bindE (vecGet z i) (\<lambda>old. vecSet z i (old + v))"

definition vecSub :: "number list \<Rightarrow> int \<Rightarrow> number \<Rightarrow> error + number list" where
  "vecSub z i v = bindE (vecGet z i) (\<lambda>old. vecSet z i (old - v))"

definition stampResistor :: "number \<Rightarrow> int \<Rightarrow> int \<Rightarrow> matrix \<Rightarrow> error + matrix" where
  "stampResistor g t1 t2 A =
     bindE (if t1 > 0 then matAdd A (t1 - 1) (t1 - 1) g else Inr A) (\<lambda>A1.
     bindE (if t2 > 0 then matAdd A1 (t2 - 1) (t2 - 1) g else Inr A1) (\<lambda>A2.
       if t1 > 0 \<and> t2 > 0
       then bindE (matSub A2 (t1 - 1) (t2 - 1) g) (\<lambda>A3. matSub A3 (t2 - 1) (t1 - 1) g)
       else Inr A2))"

definition stampCurrentSource :: "number \<Rightarrow> int \<Rightarrow> int \<Rightarrow> number list \<Rightarrow> error + number list" where
  "stampCurrentSource v tA tB z =
     bindE (if tA > 0 then vecAdd z (tA - 1) v else Inr z) (\<lambda>z1.
       if tB > 0 then vecSub z1 (tB - 1) v else Inr z1)"

text \<open>The body of the first \<open>elements.forEach\<close>.\<close>

fun stampElement ::
  "electricalNode list \<Rightarrow> matrix \<times> number list \<Rightarrow> circuitElement \<Rightarrow> error + matrix \<times> number list" where
  "stampElement nodes (A, z) element =
     (case etype element of
        Resistor \<Rightarrow>
          (let g = ndiv (Fin 1) (evalue element) in
           bindE (terminalIdAt element 0) (\<lambda>a.
           bindE (terminalIdAt element 1) (\<lambda>b.
           bindE (stampResistor g (getNodeIndex nodes a) (getNodeIndex nodes b) A) (\<lambda>A'.
             Inr (A', z)))))
      | CurrentSource \<Rightarrow>
          bindE (terminalIdAt element 0) (\<lambda>a.
          bindE (terminalIdAt element 1) (\<lambda>b.
          bindE (stampCurrentSource (Fin (evalue element))
                   (getNodeIndex nodes a) (getNodeIndex nodes b) z) (\<lambda>z'.
            Inr (A, z'))))
      | _ \<Rightarrow> Inr (A, z))"

text \<open>\<open>if (node > 0) A.set([node - 1, col], v)\<close> and \<open>if (node > 0) A.set([row, node - 1], v)\<close>.\<close>

definition setRowOf :: "int \<Rightarrow> int \<Rightarrow> number \<Rightarrow> matrix \<Rightarrow> error + matrix" where
  "setRowOf node col v A = (if node > 0 then matSet A (node - 1) col v else Inr A)"

definition setColOf :: "int \<Rightarrow> int \<Rightarrow> number \<Rightarrow> matrix \<Rightarrow> error + matrix" where
  "setColOf row node v A = (if node > 0 then matSet A row (node - 1) v else Inr A)"

text \<open>The body of \<open>vSources.forEach((vSource, idx) => ...)\<close> during assembly.\<close>

fun stampVSource ::
  "electricalNode list \<Rightarrow> int \<Rightarrow> matrix \<times> number list \<Rightarrow> nat \<times> circuitElement
     \<Rightarrow> error + matrix \<times> number list" where
  "stampVSource nodes numNodes (A, z) (idx, vSource) =
     (let vIdx = numNodes + int idx in
      bindE (terminalIdAt vSource 0) (\<lambda>a.
      bindE (terminalIdAt vSource 1) (\<lambda>b.
        let posNode = getNodeIndex nodes a; negNode = getNodeIndex nodes b in
        bindE (setRowOf posNode vIdx (Fin 1) A) (\<lambda>A1.
        bindE (setRowOf negNode vIdx (Fin (- 1)) A1) (\<lambda>A2.
          case etype vSource of
            VoltageSource \<Rightarrow>
              bindE (setColOf vIdx posNode (Fin 1) A2) (\<lambda>A3.
              bindE (setColOf vIdx negNode (Fin (- 1)) A3) (\<lambda>A4.
              bindE (vecSet z vIdx (Fin (evalue vSource))) (\<lambda>z'.
                Inr (A4, z'))))
          | VCVS \<Rightarrow>
              (let gain = evalue vSource in
               bindE (terminalIdAt vSource 2) (\<lambda>c.
               bindE (terminalIdAt vSource 3) (\<lambda>d.
                 let inPosNode = getNodeIndex nodes c; inNegNode = getNodeIndex nodes d in
                 bindE (setColOf vIdx posNode (Fin 1) A2) (\<lambda>A3.
                 bindE (setColOf vIdx negNode (Fin (- 1)) A3) (\<lambda>A4.
                 bindE (setColOf vIdx inPosNode (Fin (- gain)) A4) (\<lambda>A5.
                 bindE (setColOf vIdx inNegNode (Fin gain) A5) (\<lambda>A6.
                   Inr (A6, z))))))))
          | _ \<Rightarrow> Inr (A2, z))))))"

definition vSourcesOf :: "circuitElement list \<Rightarrow> circuitElement list" where
  "vSourcesOf elements = filter (\<lambda>e. etype e = VoltageSource \<or> etype e = VCVS) elements"

definition numNodesOf :: "electricalNode list \<Rightarrow> int" where
  "numNodesOf nodes = int (length nodes) - 1"

text \<open>Lines 26 to 102 of the solver: allocation and the three stamping loops.\<close>

definition assemble ::
  "electricalNode list \<Rightarrow> circuitElement list \<Rightarrow> error + matrix \<times> number list" where
  "assemble nodes elements =
     (let numNodes = numNodesOf nodes;
          vSources = vSourcesOf elements;
          m = int (length vSources);
          A_size = numNodes + m;
          A = zerosMat A_size A_size;
          z = zerosVec A_size
      in bindE (foldE (stampElement nodes) (A, z) elements) (\<lambda>(A1, z1).
         bindE (foldE (\<lambda>A i. matAdd A (int i) (int i) GMIN) A1 [0..<nat numNodes]) (\<lambda>A2.
           foldE (stampVSource nodes numNodes) (A2, z1) (enumerate 0 vSources))))"

subsection \<open>Derived quantities\<close>

text \<open>
  \<open>nodeVoltages[node]\<close> is \<open>undefined\<close> for a key that is not there, and every use of it is
  an operand of a subtraction, which then is \<open>NaN\<close>.
\<close>

definition voltageOf :: "(int \<rightharpoonup> number) \<Rightarrow> int \<Rightarrow> number" where
  "voltageOf nv node = (case nv node of Some v \<Rightarrow> v | None \<Rightarrow> NonFinite)"

definition extractVoltages :: "int \<Rightarrow> number list \<Rightarrow> error + (int \<rightharpoonup> number)" where
  "extractVoltages numNodes x =
     foldE (\<lambda>nv i. bindE (vecGet x (int i)) (\<lambda>v. Inr (nv(int i + 1 \<mapsto> v))))
       [0 \<mapsto> Fin 0] [0..<nat numNodes]"

type_synonym derived = "(string \<rightharpoonup> number) \<times> (string \<rightharpoonup> number)"

fun deriveVSource ::
  "electricalNode list \<Rightarrow> int \<Rightarrow> number list \<Rightarrow> (int \<rightharpoonup> number) \<Rightarrow> derived \<Rightarrow> nat \<times> circuitElement
     \<Rightarrow> error + derived" where
  "deriveVSource nodes numNodes x nv (currents, powers) (idx, vSource) =
     bindE (vecGet x (numNodes + int idx)) (\<lambda>current.
     bindE (terminalIdAt vSource 0) (\<lambda>a.
     bindE (terminalIdAt vSource 1) (\<lambda>b.
       let posNode = getNodeIndex nodes a; negNode = getNodeIndex nodes b;
           vDelta = voltageOf nv posNode - voltageOf nv negNode
       in Inr (currents(eid vSource \<mapsto> current), powers(eid vSource \<mapsto> - (vDelta * current))))))"

fun deriveElement ::
  "electricalNode list \<Rightarrow> (int \<rightharpoonup> number) \<Rightarrow> derived \<Rightarrow> circuitElement \<Rightarrow> error + derived" where
  "deriveElement nodes nv (currents, powers) element =
     (case etype element of
        Resistor \<Rightarrow>
          bindE (terminalIdAt element 0) (\<lambda>a.
          bindE (terminalIdAt element 1) (\<lambda>b.
            let posNode = getNodeIndex nodes a; negNode = getNodeIndex nodes b;
                startV = voltageOf nv posNode; endV = voltageOf nv negNode;
                current = ndiv (startV - endV) (evalue element)
            in Inr (currents(eid element \<mapsto> current),
                    powers(eid element \<mapsto> \<bar>current * current * Fin (evalue element)\<bar>))))
      | CurrentSource \<Rightarrow>
          (let current = Fin (evalue element) in
           bindE (terminalIdAt element 0) (\<lambda>a.
           bindE (terminalIdAt element 1) (\<lambda>b.
             let posNode = getNodeIndex nodes a; negNode = getNodeIndex nodes b;
                 vDelta = voltageOf nv posNode - voltageOf nv negNode
             in Inr (currents(eid element \<mapsto> current), powers(eid element \<mapsto> vDelta * current)))))
      | _ \<Rightarrow> Inr (currents, powers))"

text \<open>Lines 114 to 159 of the solver, from the solved vector \<open>x\<close>.\<close>

definition deriveResult ::
  "electricalNode list \<Rightarrow> circuitElement list \<Rightarrow> number list \<Rightarrow> error + solverResult" where
  "deriveResult nodes elements x =
     (let numNodes = numNodesOf nodes; vSources = vSourcesOf elements in
      bindE (extractVoltages numNodes x) (\<lambda>nv.
      bindE (foldE (deriveVSource nodes numNodes x nv) (Map.empty, Map.empty)
               (enumerate 0 vSources)) (\<lambda>d1.
      bindE (foldE (deriveElement nodes nv) d1 elements) (\<lambda>(currents, powers).
        Inr \<lparr>nodeVoltages = nv, elementCurrents = currents, elementPower = powers\<rparr>))))"

subsection \<open>\<open>solveCircuit\<close>\<close>

text \<open>
  The library computation inside the \<open>try\<close> block, \<open>mathjs.multiply(mathjs.inv(A), z)\<close>, is
  the parameter \<open>linsolve\<close>: \<open>None\<close> when it throws, which the \<open>catch\<close> turns into the empty
  result. The outer \<open>option\<close> is inherited from \<open>extractNodes\<close>.
\<close>

type_synonym linsolver = "matrix \<Rightarrow> number list \<Rightarrow> number list option"

definition solveCircuit ::
  "linsolver \<Rightarrow> circuitElement list \<Rightarrow> wire list \<Rightarrow> (error + solverResult) option" where
  "solveCircuit linsolve elements wires =
     (if elements = [] then Some (Inr emptyResult)
      else Option.bind (extractNodes elements wires) (\<lambda>nodes.
        Some (if numNodesOf nodes \<le> 0 then Inr emptyResult
              else bindE (assemble nodes elements) (\<lambda>(A, z).
                case linsolve A z of
                  None \<Rightarrow> Inr emptyResult
                | Some x \<Rightarrow> deriveResult nodes elements x))))"


subsection \<open>A reference linear solver\<close>

text \<open>
  Modelled from the spec: the library computation \<open>mathjs.multiply(mathjs.inv(A), z)\<close>, which
  is not part of the repository. Section 4.4 of the specification: it computes \<open>x\<close> with
  \<open>A x = z\<close> and fails when \<open>A\<close> is singular. \<open>exactSolve\<close> is that computation in exact
  arithmetic, by Cramer's rule. It is defined on finite square systems and reports
  everything else as a failure; the statements below use it on such systems only.
\<close>

definition removeAt :: "nat \<Rightarrow> 'a list \<Rightarrow> 'a list" where
  "removeAt j xs = take j xs @ drop (Suc j) xs"

fun det :: "real list list \<Rightarrow> real" where
  "det [] = 1"
| "det (r # rs) = (\<Sum>j\<leftarrow>[0..<length r]. (- 1) ^ j * r ! j * det (map (removeAt j) rs))"

definition replaceCol :: "real list list \<Rightarrow> nat \<Rightarrow> real list \<Rightarrow> real list list" where
  "replaceCol A j z = map (\<lambda>(row, v). row[j := v]) (zip A z)"

definition finOf :: "number \<Rightarrow> real option" where
  "finOf a = (case a of Fin x \<Rightarrow> Some x | NonFinite \<Rightarrow> None)"

definition exactSolve :: linsolver where
  "exactSolve A z =
     (case (those (map (\<lambda>row. those (map finOf row)) A), those (map finOf z)) of
        (Some Ar, Some zr) \<Rightarrow>
          if length zr = length Ar \<and> list_all (\<lambda>row. length row = length Ar) Ar \<and> det Ar \<noteq> 0
          then Some (map (\<lambda>j. Fin (det (replaceCol Ar j zr) / det Ar)) [0..<length Ar])
          else None
      | _ \<Rightarrow> None)"

section \<open>Specification of the topology\<close>

text \<open>
  \<open>rootOf parent i r\<close>: following the parent pointers from \<open>i\<close> ends in \<open>r\<close>, where a key
  that is absent or its own parent is a root. A \<open>forest\<close> is a parent map in which every
  walk ends.
\<close>

inductive rootOf :: "parentMap \<Rightarrow> string \<Rightarrow> string \<Rightarrow> bool" for parent where
  self: "parent i = None \<or> parent i = Some i \<Longrightarrow> rootOf parent i i"
| step: "parent i = Some j \<Longrightarrow> j \<noteq> i \<Longrightarrow> rootOf parent j r \<Longrightarrow> rootOf parent i r"

definition forest :: "parentMap \<Rightarrow> bool" where
  "forest parent = (\<forall>i. \<exists>r. rootOf parent i r)"

definition rootf :: "parentMap \<Rightarrow> string \<Rightarrow> string" where
  "rootf p k = (THE r. rootOf p k r)"

text \<open>
  A wire is bound when both endpoints pass the truthiness test. The bound wires are the
  edges of an undirected graph on terminal ids; \<open>joined\<close> is "connected by a chain of bound
  wires", in either direction and of any length.
\<close>

definition bound :: "wire \<Rightarrow> bool" where
  "bound w \<longleftrightarrow> truthy (startTerminalId w) \<and> truthy (endTerminalId w)"

definition wireEdges :: "wire list \<Rightarrow> (string \<times> string) set" where
  "wireEdges wires =
     {(a, b). \<exists>w \<in> set wires. bound w \<and> startTerminalId w = Some a \<and> endTerminalId w = Some b}"

definition chained :: "(string \<times> string) set \<Rightarrow> (string \<times> string) set" where
  "chained E = (E \<union> E\<inverse>)\<^sup>*"

definition joined :: "wire list \<Rightarrow> (string \<times> string) set" where
  "joined wires = chained (wireEdges wires)"

text \<open>
  The invariant of \<open>nodeGroups\<close>: keys are distinct, no group is empty, and a group holds
  exactly terminals whose key (the root of their id) is the group's key.
\<close>

definition groupsOk :: "(terminal \<Rightarrow> string) \<Rightarrow> nodeGroups \<Rightarrow> bool" where
  "groupsOk key g \<longleftrightarrow>
     distinct (map fst g) \<and> (\<forall>(k, ts) \<in> set g. ts \<noteq> [] \<and> (\<forall>t \<in> set ts. key t = k))"

text \<open>
  A group is complete for the terminals \<open>seen\<close> so far when it holds, in their order, all
  of them that have its key, and every key met so far has a group.
\<close>

definition groupsFull :: "(terminal \<Rightarrow> string) \<Rightarrow> terminal list \<Rightarrow> nodeGroups \<Rightarrow> bool" where
  "groupsFull key seen g \<longleftrightarrow>
     (\<forall>(k, ts) \<in> set g. ts = filter (\<lambda>t. key t = k) seen) \<and> key ` set seen \<subseteq> fst ` set g"

text \<open>
  \<open>firstSeen xs\<close> lists the values of \<open>xs\<close> once each, in the order of their first
  appearance. \<open>groupsOf key ts\<close> lists the groups of the terminals \<open>ts\<close> with equal key, in
  the order in which their first terminals appear; each group keeps the order of \<open>ts\<close>.
\<close>

definition firstSeen :: "'a list \<Rightarrow> 'a list" where
  "firstSeen xs = rev (remdups (rev xs))"

definition groupsOf :: "(terminal \<Rightarrow> string) \<Rightarrow> terminal list \<Rightarrow> terminal list list" where
  "groupsOf key ts = map (\<lambda>k. filter (\<lambda>t. key t = k) ts) (firstSeen (map key ts))"

section \<open>Specification of the solver\<close>

text \<open>The kinds the second \<open>elements.forEach\<close> handles; the other two are the voltage sources.\<close>

definition isPassive :: "circuitElement \<Rightarrow> bool" where
  "isPassive e \<longleftrightarrow> etype e = Resistor \<or> etype e = CurrentSource"

text \<open>
  \<open>keepsRows n A A'\<close>: the matrix \<open>A'\<close> has the shape of \<open>A\<close> and the same rows from row \<open>n\<close>
  on; \<open>keepsEntries n z z'\<close> is the same for a vector. The stamps of resistors, of current
  sources and of the leakage conductance, and the column stamps of a voltage source, only
  touch the rows of non-ground nodes, which are the rows before \<open>n\<close>.
\<close>

definition keepsRows :: "nat \<Rightarrow> matrix \<Rightarrow> matrix \<Rightarrow> bool" where
  "keepsRows n A A' \<longleftrightarrow>
     length A' = length A \<and> (\<forall>i < length A. length (A' ! i) = length (A ! i))
     \<and> (\<forall>i. n \<le> i \<longrightarrow> i < length A \<longrightarrow> A' ! i = A ! i)"

definition keepsEntries :: "nat \<Rightarrow> number list \<Rightarrow> number list \<Rightarrow> bool" where
  "keepsEntries n z z' \<longleftrightarrow>
     length z' = length z \<and> (\<forall>i. n \<le> i \<longrightarrow> i < length z \<longrightarrow> z' ! i = z ! i)"

text \<open>
  The row a voltage source with output nodes \<open>p\<close> and \<open>q\<close> leaves in its own equation:
  \<open>if (p > 0) set(p - 1, 1)\<close>, then \<open>if (q > 0) set(q - 1, -1)\<close>.
\<close>

definition sourceRow :: "int \<Rightarrow> int \<Rightarrow> number list \<Rightarrow> number list" where
  "sourceRow p q row =
     (let row1 = (if p > 0 then row[nat (p - 1) := Fin 1] else row)
      in if q > 0 then row1[nat (q - 1) := Fin (- 1)] else row1)"

text \<open>
  The product of a row with a vector, and "\<open>x\<close> solves \<open>A x = z\<close>" for a square system. The
  voltage of node \<open>i\<close> in a solution \<open>x\<close> is \<open>x[i - 1]\<close>, and 0 for ground.
\<close>

fun dotN :: "number list \<Rightarrow> number list \<Rightarrow> number" where
  "dotN (a # as) (b # bs) = a * b + dotN as bs"
| "dotN _ _ = Fin 0"

definition solves :: "matrix \<Rightarrow> number list \<Rightarrow> number list \<Rightarrow> bool" where
  "solves A x z \<longleftrightarrow>
     length x = length A \<and> list_all (\<lambda>row. length row = length x) A
     \<and> map (\<lambda>row. dotN row x) A = z"

text \<open>\<open>onlyRow r A A'\<close>: the matrix \<open>A'\<close> has the shape of \<open>A\<close> and differs from it in row \<open>r\<close> at most.\<close>

definition onlyRow :: "nat \<Rightarrow> matrix \<Rightarrow> matrix \<Rightarrow> bool" where
  "onlyRow r A A' \<longleftrightarrow>
     length A' = length A \<and> (\<forall>i < length A. length (A' ! i) = length (A ! i))
     \<and> (\<forall>i. i \<noteq> r \<longrightarrow> A' ! i = A ! i)"

definition voltAt :: "real list \<Rightarrow> int \<Rightarrow> real" where
  "voltAt x i = (if i > 0 then x ! nat (i - 1) else 0)"

text \<open>
  The current that the current sources inject into a node: a source adds its value at the
  node of its terminal 0 and takes it from the node of its terminal 1.
\<close>

definition injectedBy :: "electricalNode list \<Rightarrow> int \<Rightarrow> circuitElement \<Rightarrow> real" where
  "injectedBy nodes node e =
     (if etype e = CurrentSource
      then (if getNodeIndex nodes (tid (terminals e ! 0)) = node then evalue e else 0)
         - (if getNodeIndex nodes (tid (terminals e ! 1)) = node then evalue e else 0)
      else 0)"

definition injected :: "electricalNode list \<Rightarrow> circuitElement list \<Rightarrow> int \<Rightarrow> real" where
  "injected nodes elements node = (\<Sum>e\<leftarrow>elements. injectedBy nodes node e)"

text \<open>
  An element is well formed when it has the terminal slots that the solver reads for its
  kind: four for a VCVS and two for the other kinds. \<open>squareMat S A\<close>: the matrix has \<open>S\<close>
  rows of length \<open>S\<close>.
\<close>

definition wellFormed :: "circuitElement \<Rightarrow> bool" where
  "wellFormed e \<longleftrightarrow> (if etype e = VCVS then 4 else 2) \<le> length (terminals e)"

definition squareMat :: "nat \<Rightarrow> matrix \<Rightarrow> bool" where
  "squareMat S A \<longleftrightarrow> length A = S \<and> (\<forall>i < S. length (A ! i) = S)"

text \<open>
  The assembled matrix is singular when its entries are finite and its determinant is 0.
  Two voltage sources contradict each other when they are independent sources whose
  terminals 0 lie on one node and whose terminals 1 lie on one node, with different values.
\<close>

definition realsOf :: "matrix \<Rightarrow> real list list option" where
  "realsOf A = those (map (\<lambda>row. those (map finOf row)) A)"

definition singularMat :: "matrix \<Rightarrow> bool" where
  "singularMat A = (case realsOf A of Some Ar \<Rightarrow> det Ar = 0 | None \<Rightarrow> False)"

definition contradict :: "electricalNode list \<Rightarrow> circuitElement \<Rightarrow> circuitElement \<Rightarrow> bool" where
  "contradict nodes s1 s2 \<longleftrightarrow>
     etype s1 = VoltageSource \<and> etype s2 = VoltageSource \<and> evalue s1 \<noteq> evalue s2
     \<and> (case (terminalIdAt s1 0, terminalIdAt s1 1, terminalIdAt s2 0, terminalIdAt s2 1) of
          (Inr a1, Inr b1, Inr a2, Inr b2) \<Rightarrow>
             getNodeIndex nodes a1 = getNodeIndex nodes a2
             \<and> getNodeIndex nodes b1 = getNodeIndex nodes b2
        | _ \<Rightarrow> False)"

section \<open>Example circuits\<close>

text \<open>
  A 5 V source \<open>v1\<close> with terminals \<open>a\<close>, \<open>b\<close>, a 10 Ohm resistor \<open>r1\<close> with terminals \<open>c\<close>, \<open>d\<close>,
  a second source \<open>v2\<close> of 3 V with terminals \<open>e\<close>, \<open>f\<close>, and a resistor \<open>r2\<close> of -10 Ohm on
  the terminals of \<open>r1\<close>.
\<close>

definition exTa :: terminal where
  "exTa = \<lparr>tid = ''a'', elementId = ''v1'', name = ''A''\<rparr>"

definition exTb :: terminal where
  "exTb = \<lparr>tid = ''b'', elementId = ''v1'', name = ''B''\<rparr>"

definition exTc :: terminal where
  "exTc = \<lparr>tid = ''c'', elementId = ''r1'', name = ''A''\<rparr>"

definition exTd :: terminal where
  "exTd = \<lparr>tid = ''d'', elementId = ''r1'', name = ''B''\<rparr>"

definition exTe :: terminal where
  "exTe = \<lparr>tid = ''e'', elementId = ''v2'', name = ''A''\<rparr>"

definition exTf :: terminal where
  "exTf = \<lparr>tid = ''f'', elementId = ''v2'', name = ''B''\<rparr>"

definition exV1 :: circuitElement where
  "exV1 = \<lparr>eid = ''v1'', etype = VoltageSource, evalue = 5, terminals = [exTa, exTb]\<rparr>"

definition exR1 :: circuitElement where
  "exR1 = \<lparr>eid = ''r1'', etype = Resistor, evalue = 10, terminals = [exTc, exTd]\<rparr>"

definition exV2 :: circuitElement where
  "exV2 = \<lparr>eid = ''v2'', etype = VoltageSource, evalue = 3, terminals = [exTe, exTf]\<rparr>"

definition exR2 :: circuitElement where
  "exR2 = \<lparr>eid = ''r2'', etype = Resistor, evalue = - 10, terminals = [exTc, exTd]\<rparr>"

definition exWire :: "string \<Rightarrow> string \<Rightarrow> wire" where
  "exWire s e = \<lparr>startTerminalId = Some s, endTerminalId = Some e\<rparr>"

definition exDangling :: "string \<Rightarrow> wire" where
  "exDangling s = \<lparr>startTerminalId = Some s, endTerminalId = None\<rparr>"

text \<open>The loop: \<open>a\<close> wired to \<open>c\<close> and \<open>b\<close> wired to \<open>d\<close>.\<close>

definition exLoop :: "wire list" where
  "exLoop = [exWire ''a'' ''c'', exWire ''b'' ''d'']"

definition exLoopNodes :: "electricalNode list" where
  "exLoopNodes = [\<lparr>nid = 0, nterminals = [exTa, exTc]\<rparr>, \<lparr>nid = 1, nterminals = [exTb, exTd]\<rparr>]"

text \<open>An open circuit: only \<open>b\<close> is wired to \<open>c\<close>; a second wire is still being drawn from \<open>d\<close>.\<close>

definition exOpen :: "wire list" where
  "exOpen = [exWire ''b'' ''c'', exDangling ''d'']"

definition exOpenNodes :: "electricalNode list" where
  "exOpenNodes = [\<lparr>nid = 0, nterminals = [exTb, exTc]\<rparr>, \<lparr>nid = 1, nterminals = [exTa]\<rparr>,
     \<lparr>nid = 2, nterminals = [exTd]\<rparr>]"

text \<open>The assembled system of the loop, its solution and the result the solver derives.\<close>

definition exLoopA :: matrix where
  "exLoopA = [[Fin (1 / 10 + 1 / 10 ^ 12), Fin (- 1)], [Fin (- 1), Fin 0]]"

definition exLoopZ :: "number list" where
  "exLoopZ = [Fin 0, Fin 5]"

definition exLoopX :: "number list" where
  "exLoopX = [Fin (- 5), Fin (- (1 / 2) - 5 / 10 ^ 12)]"

definition exLoopResult :: solverResult where
  "exLoopResult =
     \<lparr>nodeVoltages = [0 \<mapsto> Fin 0, 1 \<mapsto> Fin (- 5)],
      elementCurrents = [''v1'' \<mapsto> Fin (- (1 / 2) - 5 / 10 ^ 12), ''r1'' \<mapsto> Fin (1 / 2)],
      elementPower = [''v1'' \<mapsto> Fin (5 / 2 + 25 / 10 ^ 12), ''r1'' \<mapsto> Fin (5 / 2)]\<rparr>"

text \<open>
  Two sources in parallel: \<open>v1\<close> and \<open>v2\<close> on the same pair of nodes, forcing 5 V and 3 V
  between them.
\<close>

definition exParallel :: "wire list" where
  "exParallel = [exWire ''a'' ''e'', exWire ''b'' ''f'']"

definition exParallelNodes :: "electricalNode list" where
  "exParallelNodes =
     [\<lparr>nid = 0, nterminals = [exTa, exTe]\<rparr>, \<lparr>nid = 1, nterminals = [exTb, exTf]\<rparr>]"

definition exParallelA :: matrix where
  "exParallelA = [[Fin (1 / 10 ^ 12), Fin (- 1), Fin (- 1)], [Fin (- 1), Fin 0, Fin 0],
     [Fin (- 1), Fin 0, Fin 0]]"

definition exParallelZ :: "number list" where
  "exParallelZ = [Fin 0, Fin 5, Fin 3]"




text \<open>
  A 2 A current source \<open>i1\<close> with terminals \<open>g\<close>, \<open>h\<close> across the resistor \<open>r1\<close>: \<open>g\<close> wired to \<open>c\<close>
  and \<open>h\<close> wired to \<open>d\<close>.
\<close>

definition exTg :: terminal where
  "exTg = \<lparr>tid = ''g'', elementId = ''i1'', name = ''A''\<rparr>"

definition exTh :: terminal where
  "exTh = \<lparr>tid = ''h'', elementId = ''i1'', name = ''B''\<rparr>"

definition exI1 :: circuitElement where
  "exI1 = \<lparr>eid = ''i1'', etype = CurrentSource, evalue = 2, terminals = [exTg, exTh]\<rparr>"

definition exDrive :: "wire list" where
  "exDrive = [exWire ''g'' ''c'', exWire ''h'' ''d'']"

definition exDriveNodes :: "electricalNode list" where
  "exDriveNodes = [\<lparr>nid = 0, nterminals = [exTg, exTc]\<rparr>, \<lparr>nid = 1, nterminals = [exTh, exTd]\<rparr>]"

definition exDriveA :: matrix where
  "exDriveA = [[Fin (1 / 10 + 1 / 10 ^ 12)]]"

definition exDriveZ :: "number list" where
  "exDriveZ = [Fin (- 2)]"

definition exDriveX :: "number list" where
  "exDriveX = [Fin (- 2 / (1 / 10 + 1 / 10 ^ 12))]"

definition exDriveResult :: solverResult where
  "exDriveResult =
     \<lparr>nodeVoltages = [0 \<mapsto> Fin 0, 1 \<mapsto> Fin (- 2 / (1 / 10 + 1 / 10 ^ 12))],
      elementCurrents = [''i1'' \<mapsto> Fin 2, ''r1'' \<mapsto> Fin (2 / (1 / 10 + 1 / 10 ^ 12) / 10)],
      elementPower = [''i1'' \<mapsto> Fin (2 / (1 / 10 + 1 / 10 ^ 12) * 2),
        ''r1'' \<mapsto> Fin ((2 / (1 / 10 + 1 / 10 ^ 12) / 10) * (2 / (1 / 10 + 1 / 10 ^ 12) / 10) * 10)]\<rparr>"

section \<open>The disjoint-set forest\<close>

lemma rootOf_fun: "rootOf p i r \<Longrightarrow> rootOf p i r' \<Longrightarrow> r = r'"
proof (induction arbitrary: r' rule: rootOf.induct)
  case (self i)
  then show ?case by (auto elim: rootOf.cases)
next
  case (step i j r)
  from step.prems step.hyps(1,2) have "rootOf p j r'"
    by (auto elim: rootOf.cases)
  then show ?case by (rule step.IH)
qed

lemma rootOf_is_root: "rootOf p i r \<Longrightarrow> p r = None \<or> p r = Some r"
  by (induction rule: rootOf.induct) auto

lemma rootOf_root_self: "rootOf p i r \<Longrightarrow> rootOf p r r"
  by (drule rootOf_is_root) (rule rootOf.self)

lemma rootOf_compress:
  assumes ir: "rootOf p i r" and ks: "rootOf p k s"
  shows "rootOf (p(i \<mapsto> r)) k s"
  using ks
proof (induction rule: rootOf.induct)
  case (self k)
  show ?case
  proof (cases "k = i")
    case True
    have "rootOf p i i" using self True by (auto intro: rootOf.self)
    with ir have "r = i" by (auto dest: rootOf_fun)
    then have "(p(i \<mapsto> r)) k = Some k" using True by simp
    then show ?thesis by (simp add: rootOf.self)
  next
    case False
    then have "(p(i \<mapsto> r)) k = p k" by simp
    then show ?thesis using self.hyps by (simp add: rootOf.self)
  qed
next
  case (step k j s)
  show ?case
  proof (cases "k = i")
    case True
    have "rootOf p i s" using step.hyps True by (auto intro: rootOf.step)
    with ir have rs: "s = r" by (auto dest: rootOf_fun)
    show ?thesis
    proof (cases "r = i")
      case True
      then have "(p(i \<mapsto> r)) k = Some k" using \<open>k = i\<close> by simp
      then show ?thesis using \<open>k = i\<close> rs True by (simp add: rootOf.self)
    next
      case False
      from ir have "p r = None \<or> p r = Some r" by (rule rootOf_is_root)
      then have "(p(i \<mapsto> r)) r = None \<or> (p(i \<mapsto> r)) r = Some r"
        using False by simp
      then have rr: "rootOf (p(i \<mapsto> r)) r r" by (rule rootOf.self)
      have "(p(i \<mapsto> r)) i = Some r" by simp
      then have "rootOf (p(i \<mapsto> r)) i r" using False rr by (rule rootOf.step)
      then show ?thesis unfolding \<open>k = i\<close> rs .
    qed
  next
    case False
    then have "(p(i \<mapsto> r)) k = Some j" using step.hyps by simp
    then show ?thesis using step.hyps(2) step.IH by (rule rootOf.step)
  qed
qed

lemma rootOf_link:
  assumes r1: "rootOf p r1 r1" and r2: "rootOf p r2 r2" and ne: "r1 \<noteq> r2"
    and ks: "rootOf p k s"
  shows "rootOf (p(r1 \<mapsto> r2)) k (if s = r1 then r2 else s)"
  using ks
proof (induction rule: rootOf.induct)
  case (self k)
  show ?case
  proof (cases "k = r1")
    case True
    from r2 have "p r2 = None \<or> p r2 = Some r2" by (rule rootOf_is_root)
    then have "(p(r1 \<mapsto> r2)) r2 = None \<or> (p(r1 \<mapsto> r2)) r2 = Some r2"
      using ne by simp
    then have rr: "rootOf (p(r1 \<mapsto> r2)) r2 r2" by (rule rootOf.self)
    have "(p(r1 \<mapsto> r2)) r1 = Some r2" by simp
    then have "rootOf (p(r1 \<mapsto> r2)) r1 r2" using ne [symmetric] rr by (rule rootOf.step)
    then show ?thesis by (simp only: True simp_thms if_True)
  next
    case False
    then have "(p(r1 \<mapsto> r2)) k = p k" by simp
    then show ?thesis using self.hyps False by (simp add: rootOf.self)
  qed
next
  case (step k j s)
  from r1 have "p r1 = None \<or> p r1 = Some r1" by (rule rootOf_is_root)
  with step.hyps have "k \<noteq> r1" by auto
  then have "(p(r1 \<mapsto> r2)) k = Some j" using step.hyps by simp
  then show ?case using step.hyps(2) step.IH by (rule rootOf.step)
qed

lemma getParent_rootOf:
  assumes "rootOf p i r"
  shows "\<exists>p'. getParent p i = Some (r, p') \<and> p' r = Some r
          \<and> (\<forall>k s. rootOf p k s \<longrightarrow> rootOf p' k s)"
  using assms
proof (induction rule: rootOf.induct)
  case (self i)
  show ?case
  proof (cases "p i")
    case None
    have g: "getParent p i = Some (i, p(i \<mapsto> i))"
      using None by (subst getParent.simps) simp
    have "rootOf p i i" using None by (auto intro: rootOf.self)
    then have "\<forall>k s. rootOf p k s \<longrightarrow> rootOf (p(i \<mapsto> i)) k s"
      by (auto intro: rootOf_compress)
    with g show ?thesis by simp
  next
    case (Some j)
    with self have "p i = Some i" by simp
    then have "getParent p i = Some (i, p)"
      by (subst getParent.simps) simp
    then show ?thesis using \<open>p i = Some i\<close> by simp
  qed
next
  case (step i j r)
  from step.IH obtain p2 where g2: "getParent p j = Some (r, p2)"
    and r2: "p2 r = Some r" and pres: "\<forall>k s. rootOf p k s \<longrightarrow> rootOf p2 k s"
    by blast
  have g: "getParent p i = Some (r, p2(i \<mapsto> r))"
    using step.hyps(1,2) g2 by (subst getParent.simps) simp
  have "rootOf p i r" using step.hyps by (rule rootOf.step)
  with pres have ir: "rootOf p2 i r" by blast
  have "\<forall>k s. rootOf p k s \<longrightarrow> rootOf (p2(i \<mapsto> r)) k s"
    using pres ir by (auto intro: rootOf_compress)
  with g r2 show ?case by simp
qed

lemma rootf_eq: "rootOf p k r \<Longrightarrow> rootf p k = r"
  unfolding rootf_def by (rule the_equality) (auto dest: rootOf_fun)

lemma forest_rootf: "forest p \<Longrightarrow> rootOf p k (rootf p k)"
  unfolding forest_def using rootf_eq by metis

lemma forest_preserved:
  assumes f: "forest p" and pres: "\<forall>k s. rootOf p k s \<longrightarrow> rootOf p' k s"
  shows "forest p' \<and> rootf p' = rootf p"
proof
  show "forest p'" unfolding forest_def
  proof
    fix i
    from f have "rootOf p i (rootf p i)" by (rule forest_rootf)
    with pres show "\<exists>r. rootOf p' i r" by blast
  qed
  show "rootf p' = rootf p"
  proof
    fix i
    from f have "rootOf p i (rootf p i)" by (rule forest_rootf)
    with pres have "rootOf p' i (rootf p i)" by blast
    then show "rootf p' i = rootf p i" by (rule rootf_eq)
  qed
qed

lemma forest_empty: "forest Map.empty"
  unfolding forest_def by (auto intro: rootOf.self)

lemma rootf_empty: "rootf Map.empty k = k"
  by (rule rootf_eq) (simp add: rootOf.self)

lemma getParent_forest:
  assumes f: "forest p"
  shows "\<exists>p'. getParent p i = Some (rootf p i, p') \<and> forest p' \<and> rootf p' = rootf p"
proof -
  from f have "rootOf p i (rootf p i)" by (rule forest_rootf)
  from getParent_rootOf [OF this] obtain p' where g: "getParent p i = Some (rootf p i, p')"
    and pres: "\<forall>k s. rootOf p k s \<longrightarrow> rootOf p' k s" by blast
  from forest_preserved [OF f pres] g show ?thesis by blast
qed

lemma link_forest:
  assumes f: "forest p" and ne: "rootf p a \<noteq> rootf p b"
  shows "forest (p(rootf p a \<mapsto> rootf p b))
    \<and> rootf (p(rootf p a \<mapsto> rootf p b))
        = (\<lambda>k. if rootf p k = rootf p a then rootf p b else rootf p k)"
proof -
  let ?p' = "p(rootf p a \<mapsto> rootf p b)"
  have ra: "rootOf p (rootf p a) (rootf p a)"
    using forest_rootf [OF f] by (rule rootOf_root_self)
  have rb: "rootOf p (rootf p b) (rootf p b)"
    using forest_rootf [OF f] by (rule rootOf_root_self)
  have step: "rootOf ?p' k (if rootf p k = rootf p a then rootf p b else rootf p k)" for k
    using rootOf_link [OF ra rb ne forest_rootf [OF f]] .
  have "forest ?p'" unfolding forest_def using step by blast
  moreover have "rootf ?p' = (\<lambda>k. if rootf p k = rootf p a then rootf p b else rootf p k)"
  proof
    fix k show "rootf ?p' k = (if rootf p k = rootf p a then rootf p b else rootf p k)"
      using step by (rule rootf_eq)
  qed
  ultimately show ?thesis by blast
qed

lemma unionIds_forest:
  assumes f: "forest p"
  shows "\<exists>p'. unionIds p a b = Some p' \<and> forest p'
    \<and> rootf p' = (\<lambda>k. if rootf p k = rootf p a then rootf p b else rootf p k)"
proof -
  from getParent_forest [OF f] obtain p1 where g1: "getParent p a = Some (rootf p a, p1)"
    and f1: "forest p1" and e1: "rootf p1 = rootf p" by blast
  from getParent_forest [OF f1] obtain p2 where g2: "getParent p1 b = Some (rootf p1 b, p2)"
    and f2: "forest p2" and e2: "rootf p2 = rootf p1" by blast
  have e: "rootf p2 = rootf p" using e1 e2 by simp
  show ?thesis
  proof (cases "rootf p a = rootf p b")
    case True
    then have "unionIds p a b = Some p2" using g1 g2 e1 by (simp add: unionIds_def)
    moreover have "rootf p2 = (\<lambda>k. if rootf p k = rootf p a then rootf p b else rootf p k)"
      using True e by auto
    ultimately show ?thesis using f2 by blast
  next
    case False
    then have u: "unionIds p a b = Some (p2(rootf p2 a \<mapsto> rootf p2 b))"
      using g1 g2 e1 e by (simp add: unionIds_def)
    from False have "rootf p2 a \<noteq> rootf p2 b" using e by simp
    from link_forest [OF f2 this] u show ?thesis unfolding e by blast
  qed
qed

lemma chained_mono: "E \<subseteq> F \<Longrightarrow> chained E \<subseteq> chained F"
  unfolding chained_def by (intro rtrancl_mono) auto

lemma chained_sym: "(a, b) \<in> chained E \<Longrightarrow> (b, a) \<in> chained E"
proof -
  assume "(a, b) \<in> chained E"
  then have "(b, a) \<in> ((E \<union> E\<inverse>)\<^sup>*)\<inverse>" unfolding chained_def by simp
  then show ?thesis unfolding chained_def rtrancl_converse [symmetric]
    by (simp add: converse_Un Un_commute)
qed

lemma chained_trans: "(a, b) \<in> chained E \<Longrightarrow> (b, c) \<in> chained E \<Longrightarrow> (a, c) \<in> chained E"
  unfolding chained_def by (rule rtrancl_trans)

lemma chained_edge: "(a, b) \<in> E \<Longrightarrow> (a, b) \<in> chained E"
  unfolding chained_def by auto

lemma chained_union_step:
  assumes R: "{(k, l). \<rho> k = \<rho> l} = chained E"
  shows "{(k, l). (if \<rho> k = \<rho> a then \<rho> b else \<rho> k) = (if \<rho> l = \<rho> a then \<rho> b else \<rho> l)}
    = chained (insert (a, b) E)"
    (is "?L = ?R")
proof (rule set_eqI, clarify)
  fix k l
  let ?f = "\<lambda>k. if \<rho> k = \<rho> a then \<rho> b else \<rho> k"
  have sub: "chained E \<subseteq> ?R" by (rule chained_mono) auto
  have same: "\<rho> x = \<rho> y \<Longrightarrow> (x, y) \<in> ?R" for x y using R sub by blast
  have ab: "(a, b) \<in> ?R" by (rule chained_edge) simp
  have ba: "(b, a) \<in> ?R" using ab by (rule chained_sym)
  show "(k, l) \<in> ?L \<longleftrightarrow> (k, l) \<in> ?R"
  proof
    assume "(k, l) \<in> ?L"
    then have fl: "?f k = ?f l" by simp
    consider "\<rho> k = \<rho> a" "\<rho> l = \<rho> a" | "\<rho> k = \<rho> a" "\<rho> l \<noteq> \<rho> a"
      | "\<rho> k \<noteq> \<rho> a" "\<rho> l = \<rho> a" | "\<rho> k \<noteq> \<rho> a" "\<rho> l \<noteq> \<rho> a" by blast
    then show "(k, l) \<in> ?R"
    proof cases
      case 1
      then show ?thesis by (simp add: same)
    next
      case 2
      with fl have "\<rho> b = \<rho> l" by simp
      then have "(b, l) \<in> ?R" by (rule same)
      moreover have "(k, a) \<in> ?R" using 2 by (simp add: same)
      ultimately show ?thesis using ab by (blast intro: chained_trans)
    next
      case 3
      with fl have "\<rho> k = \<rho> b" by simp
      then have "(k, b) \<in> ?R" by (rule same)
      moreover have "(a, l) \<in> ?R" using 3 by (simp add: same)
      ultimately show ?thesis using ba by (blast intro: chained_trans)
    next
      case 4
      with fl show ?thesis by (simp add: same)
    qed
  next
    assume "(k, l) \<in> ?R"
    then have "(k, l) \<in> (insert (a, b) E \<union> (insert (a, b) E)\<inverse>)\<^sup>*"
      unfolding chained_def .
    then show "(k, l) \<in> ?L"
    proof (induction rule: rtrancl_induct)
      case base
      show ?case by simp
    next
      case (step y z)
      from step.hyps(2) consider "(y, z) \<in> E \<union> E\<inverse>" | "y = a" "z = b" | "y = b" "z = a"
        by auto
      then have "?f y = ?f z"
      proof cases
        case 1
        then have "(y, z) \<in> chained E" unfolding chained_def by auto
        with R have "\<rho> y = \<rho> z" by blast
        then show ?thesis by simp
      qed auto
      with step.IH show ?case by simp
    qed
  qed
qed

lemma wireEdges_Nil: "wireEdges [] = {}"
  by (simp add: wireEdges_def)

lemma wireEdges_Cons_bound:
  "truthy (startTerminalId w) \<Longrightarrow> truthy (endTerminalId w) \<Longrightarrow>
   wireEdges (w # ws) = insert (the (startTerminalId w), the (endTerminalId w)) (wireEdges ws)"
  by (auto simp: wireEdges_def bound_def truthy_def split: option.splits)

lemma wireEdges_Cons_unbound:
  "\<not> (truthy (startTerminalId w) \<and> truthy (endTerminalId w)) \<Longrightarrow>
   wireEdges (w # ws) = wireEdges ws"
  by (auto simp: wireEdges_def bound_def)

lemma connectWires_forest:
  assumes "forest p" and "{(k, l). rootf p k = rootf p l} = chained E"
  shows "\<exists>p'. connectWires p ws = Some p' \<and> forest p'
    \<and> {(k, l). rootf p' k = rootf p' l} = chained (E \<union> wireEdges ws)"
  using assms
proof (induction ws arbitrary: p E)
  case Nil
  then show ?case by (simp add: wireEdges_Nil)
next
  case (Cons w ws)
  show ?case
  proof (cases "truthy (startTerminalId w) \<and> truthy (endTerminalId w)")
    case True
    let ?a = "the (startTerminalId w)" and ?b = "the (endTerminalId w)"
    from unionIds_forest [OF Cons.prems(1)] obtain p1 where u: "unionIds p ?a ?b = Some p1"
      and f1: "forest p1"
      and e1: "rootf p1 = (\<lambda>k. if rootf p k = rootf p ?a then rootf p ?b else rootf p k)"
      by blast
    have "{(k, l). rootf p1 k = rootf p1 l} = chained (insert (?a, ?b) E)"
      unfolding e1 using Cons.prems(2) by (rule chained_union_step)
    from Cons.IH [OF f1 this] obtain p' where c: "connectWires p1 ws = Some p'"
      and f': "forest p'"
      and e': "{(k, l). rootf p' k = rootf p' l} = chained (insert (?a, ?b) E \<union> wireEdges ws)"
      by blast
    have "insert (?a, ?b) E \<union> wireEdges ws = E \<union> wireEdges (w # ws)"
      using True by (simp add: wireEdges_Cons_bound)
    with e' have "{(k, l). rootf p' k = rootf p' l} = chained (E \<union> wireEdges (w # ws))"
      by simp
    moreover have "connectWires p (w # ws) = Some p'" using True u c by simp
    ultimately show ?thesis using f' by blast
  next
    case False
    from Cons.IH [OF Cons.prems] obtain p' where c: "connectWires p ws = Some p'"
      and f': "forest p'"
      and e': "{(k, l). rootf p' k = rootf p' l} = chained (E \<union> wireEdges ws)" by blast
    have "connectWires p (w # ws) = Some p'" using False c by auto
    moreover have "wireEdges (w # ws) = wireEdges ws"
      using False by (rule wireEdges_Cons_unbound)
    ultimately show ?thesis using f' e' by simp
  qed
qed

lemma connectWires_joined:
  "\<exists>p. connectWires Map.empty wires = Some p \<and> forest p
     \<and> (\<forall>k l. rootf p k = rootf p l \<longleftrightarrow> (k, l) \<in> joined wires)"
proof -
  have "{(k, l). rootf Map.empty k = rootf Map.empty l} = chained {}"
    by (auto simp: rootf_empty chained_def)
  from connectWires_forest [OF forest_empty this, of wires]
  obtain p where c: "connectWires Map.empty wires = Some p" and f: "forest p"
    and e: "{(k, l). rootf p k = rootf p l} = chained ({} \<union> wireEdges wires)" by blast
  from e have "\<forall>k l. rootf p k = rootf p l \<longleftrightarrow> (k, l) \<in> joined wires"
    unfolding joined_def by auto
  with c f show ?thesis by blast
qed

lemma pushTerminal_keys:
  "map fst (pushTerminal g r t) = (if r \<in> fst ` set g then map fst g else map fst g @ [r])"
  by (induction g r t rule: pushTerminal.induct) auto

lemma pushTerminal_terms:
  "set (concat (map snd (pushTerminal g r t))) = insert t (set (concat (map snd g)))"
  by (induction g r t rule: pushTerminal.induct) auto

lemma pushTerminal_entries:
  "(k, ts) \<in> set (pushTerminal g r t) \<Longrightarrow>
     (k, ts) \<in> set g \<or> (k = r \<and> (ts = [t] \<or> (\<exists>ts0. (k, ts0) \<in> set g \<and> ts = ts0 @ [t])))"
  by (induction g r t rule: pushTerminal.induct) (auto split: if_splits)

lemma groupsOkD:
  "groupsOk key g \<Longrightarrow> (k, ts) \<in> set g \<Longrightarrow> ts \<noteq> [] \<and> (\<forall>t \<in> set ts. key t = k)"
  unfolding groupsOk_def by blast

lemma pushTerminal_ok:
  assumes "groupsOk key g"
  shows "groupsOk key (pushTerminal g (key t) t)"
proof -
  have "distinct (map fst (pushTerminal g (key t) t))"
    using assms by (auto simp: pushTerminal_keys groupsOk_def)
  moreover have "ts \<noteq> [] \<and> (\<forall>u \<in> set ts. key u = k)"
    if "(k, ts) \<in> set (pushTerminal g (key t) t)" for k ts
    using pushTerminal_entries [OF that] groupsOkD [OF assms] by fastforce
  ultimately show ?thesis unfolding groupsOk_def by blast
qed

lemma groupTerminals_spec:
  assumes "forest p" and "groupsOk (\<lambda>t. rootf p (tid t)) g"
  shows "\<exists>g'. groupTerminals p g ts = Some g' \<and> groupsOk (\<lambda>t. rootf p (tid t)) g'
     \<and> set (concat (map snd g')) = set (concat (map snd g)) \<union> set ts"
  using assms
proof (induction ts arbitrary: p g)
  case Nil
  then show ?case by simp
next
  case (Cons t ts)
  from getParent_forest [OF Cons.prems(1)] obtain p1
    where g1: "getParent p (tid t) = Some (rootf p (tid t), p1)"
      and f1: "forest p1" and e1: "rootf p1 = rootf p" by blast
  let ?g1 = "pushTerminal g (rootf p (tid t)) t"
  have ok1: "groupsOk (\<lambda>t. rootf p1 (tid t)) ?g1"
    unfolding e1 using pushTerminal_ok [OF Cons.prems(2), of t] by simp
  from Cons.IH [OF f1 ok1] obtain g' where gt: "groupTerminals p1 ?g1 ts = Some g'"
    and ok': "groupsOk (\<lambda>t. rootf p1 (tid t)) g'"
    and s': "set (concat (map snd g')) = set (concat (map snd ?g1)) \<union> set ts" by blast
  have "groupTerminals p g (t # ts) = Some g'" using g1 gt by simp
  moreover have "set (concat (map snd g')) = set (concat (map snd g)) \<union> set (t # ts)"
    unfolding s' pushTerminal_terms by auto
  ultimately show ?case using ok' unfolding e1 by blast
qed

lemma groupsOk_Nil: "groupsOk key []"
  by (simp add: groupsOk_def)

lemma groupsOk_same:
  assumes ok: "groupsOk key g" and l: "l \<in> snd ` set g" and l': "l' \<in> snd ` set g"
    and t: "t \<in> set l" and t': "t' \<in> set l'"
  shows "key t = key t' \<longleftrightarrow> l = l'"
proof -
  from l obtain k where kl: "(k, l) \<in> set g" by auto
  from l' obtain k' where kl': "(k', l') \<in> set g" by auto
  from ok kl t have kt: "key t = k" by (auto simp: groupsOk_def)
  from ok kl' t' have kt': "key t' = k'" by (auto simp: groupsOk_def)
  from ok have d: "distinct (map fst g)" by (simp add: groupsOk_def)
  show ?thesis
  proof
    assume "key t = key t'"
    then have "k = k'" using kt kt' by simp
    with d kl kl' show "l = l'" by (metis eq_key_imp_eq_value)
  next
    assume "l = l'"
    with ok kl t' have "key t' = k" by (auto simp: groupsOk_def)
    with kt show "key t = key t'" by simp
  qed
qed

lemma groupsOk_distinct:
  assumes ok: "groupsOk key g"
  shows "distinct (map snd g)"
proof -
  from ok have d: "distinct (map fst g)" by (simp add: groupsOk_def)
  have "i = j" if ij: "i < length g" "j < length g" and e: "snd (g ! i) = snd (g ! j)" for i j
  proof -
    have mi: "(fst (g ! i), snd (g ! i)) \<in> set g" using ij by simp
    have mj: "(fst (g ! j), snd (g ! j)) \<in> set g" using ij by simp
    from ok mi have ne: "snd (g ! i) \<noteq> []" by (auto simp: groupsOk_def)
    then obtain t where t: "t \<in> set (snd (g ! i))" by (cases "snd (g ! i)") auto
    from ok mi t have "key t = fst (g ! i)" unfolding groupsOk_def by blast
    moreover from ok mj t e have "key t = fst (g ! j)" unfolding groupsOk_def by force
    ultimately have "map fst g ! i = map fst g ! j" using ij by simp
    moreover have "i < length (map fst g)" "j < length (map fst g)" using ij by simp_all
    ultimately show "i = j" using d nth_eq_iff_index_eq by blast
  qed
  then show ?thesis unfolding distinct_conv_nth by auto
qed

lemma numberNodes_length: "length (numberNodes ns) = length ns"
  by (simp add: numberNodes_def)

lemma numberNodes_nth:
  "i < length ns \<Longrightarrow> numberNodes ns ! i = (ns ! i)\<lparr>nid := int i\<rparr>"
  by (simp add: numberNodes_def nth_enumerate_eq)

lemma numberNodes_terminals: "map nterminals (numberNodes ns) = map nterminals ns"
  by (rule nth_equalityI) (simp_all add: numberNodes_length numberNodes_nth)

lemma sortNodes_mset: "mset (sortNodes ns) = mset ns"
  by (simp add: sortNodes_def)

lemma extractNodes_terminals_mset:
  "mset (map nterminals (numberNodes (sortNodes (map (\<lambda>ts. \<lparr>nid = - 1, nterminals = ts\<rparr>) G))))
     = mset G"
proof -
  have "mset (map nterminals (sortNodes (map (\<lambda>ts. \<lparr>nid = - 1, nterminals = ts\<rparr>) G)))
      = image_mset nterminals (mset (map (\<lambda>ts. \<lparr>nid = - 1, nterminals = ts\<rparr>) G))"
    by (simp add: sortNodes_mset)
  also have "\<dots> = mset G" by (simp add: image_mset.compositionality comp_def)
  finally show ?thesis by (simp add: numberNodes_terminals)
qed

lemma extractNodes_shape:
  "\<exists>ns g (\<rho> :: string \<Rightarrow> string). extractNodes elements wires = Some ns
     \<and> ns = numberNodes (sortNodes (map (\<lambda>ts. \<lparr>nid = - 1, nterminals = ts\<rparr>) (map snd g)))
     \<and> groupsOk (\<lambda>t. \<rho> (tid t)) g
     \<and> set (concat (map snd g)) = set (allTerminals elements)
     \<and> (\<forall>k l. \<rho> k = \<rho> l \<longleftrightarrow> (k, l) \<in> joined wires)"
proof -
  from connectWires_joined obtain p where c: "connectWires Map.empty wires = Some p"
    and f: "forest p" and j: "\<forall>k l. rootf p k = rootf p l \<longleftrightarrow> (k, l) \<in> joined wires"
    by blast
  from groupTerminals_spec [OF f groupsOk_Nil, of "allTerminals elements"]
  obtain g where gt: "groupTerminals p [] (allTerminals elements) = Some g"
    and ok: "groupsOk (\<lambda>t. rootf p (tid t)) g"
    and st: "set (concat (map snd g)) = set (allTerminals elements)" by auto
  have "extractNodes elements wires
      = Some (numberNodes (sortNodes (map (\<lambda>ts. \<lparr>nid = - 1, nterminals = ts\<rparr>) (map snd g))))"
    using c gt by (simp add: extractNodes_def)
  with ok st j show ?thesis by blast
qed

lemma connectWires_filter: "connectWires p (filter bound ws) = connectWires p ws"
proof (induction ws arbitrary: p)
  case Nil
  show ?case by simp
next
  case (Cons w ws)
  show ?case
  proof (cases "bound w")
    case True
    then show ?thesis using Cons.IH by (simp add: bound_def)
  next
    case False
    then have "connectWires p (w # ws) = connectWires p ws" by (auto simp: bound_def)
    then show ?thesis using False Cons.IH by simp
  qed
qed

lemma pushTerminal_filter:
  assumes "\<forall>(k, ts) \<in> set g. ts = filter (\<lambda>u. key u = k) seen"
    and "r \<in> key ` set seen \<longrightarrow> r \<in> fst ` set g"
    and "distinct (map fst g)" and "key t = r"
  shows "\<forall>(k, ts) \<in> set (pushTerminal g r t). ts = filter (\<lambda>u. key u = k) (seen @ [t])"
  using assms
proof (induction g r t rule: pushTerminal.induct)
  case (1 rt t)
  then have "rt \<notin> key ` set seen" by simp
  then have "filter (\<lambda>u. key u = rt) seen = []" unfolding filter_empty_conv by blast
  with 1 show ?case by simp
next
  case (2 k ts g rt t)
  show ?case
  proof (cases "k = rt")
    case True
    have "ts' = filter (\<lambda>u. key u = k') (seen @ [t])" if "(k', ts') \<in> set g" for k' ts'
    proof -
      from that "2.prems"(3) have "k' \<noteq> k" by force
      with True "2.prems"(4) have "key t \<noteq> k'" by simp
      moreover from that "2.prems"(1) have "ts' = filter (\<lambda>u. key u = k') seen" by auto
      ultimately show ?thesis by simp
    qed
    moreover from "2.prems"(1,4) True
    have "ts @ [t] = filter (\<lambda>u. key u = k) (seen @ [t])" by simp
    ultimately show ?thesis using True by auto
  next
    case False
    from "2.prems"(1) have a: "\<forall>(k, ts) \<in> set g. ts = filter (\<lambda>u. key u = k) seen" by simp
    from "2.prems"(2) False have b: "rt \<in> key ` set seen \<longrightarrow> rt \<in> fst ` set g" by auto
    from "2.prems"(3) have c: "distinct (map fst g)" by simp
    note ih = "2.IH" [OF False a b c "2.prems"(4)]
    from "2.prems"(1) have "ts = filter (\<lambda>u. key u = k) seen" by simp
    with False "2.prems"(4) have "ts = filter (\<lambda>u. key u = k) (seen @ [t])" by simp
    with ih False show ?thesis by simp
  qed
qed

lemma pushTerminal_full:
  assumes "groupsFull key seen g" and "distinct (map fst g)"
  shows "groupsFull key (seen @ [t]) (pushTerminal g (key t) t)"
proof -
  from assms(1) have a: "\<forall>(k, ts) \<in> set g. ts = filter (\<lambda>u. key u = k) seen"
    and b: "key ` set seen \<subseteq> fst ` set g" by (simp_all add: groupsFull_def)
  from b have b': "key t \<in> key ` set seen \<longrightarrow> key t \<in> fst ` set g" by blast
  from pushTerminal_filter [OF a b' assms(2) refl]
  have "\<forall>(k, ts) \<in> set (pushTerminal g (key t) t). ts = filter (\<lambda>u. key u = k) (seen @ [t])" .
  moreover have "set (map fst (pushTerminal g (key t) t)) = insert (key t) (fst ` set g)"
    by (auto simp: pushTerminal_keys)
  then have "key ` set (seen @ [t]) \<subseteq> fst ` set (pushTerminal g (key t) t)"
    using b by auto
  ultimately show ?thesis unfolding groupsFull_def by blast
qed

lemma groupTerminals_full:
  assumes "forest p" and "groupsOk (\<lambda>t. rootf p (tid t)) g"
    and "groupsFull (\<lambda>t. rootf p (tid t)) seen g"
    and "groupTerminals p g ts = Some g'"
  shows "groupsFull (\<lambda>t. rootf p (tid t)) (seen @ ts) g'"
  using assms
proof (induction ts arbitrary: p g seen)
  case Nil
  then show ?case by simp
next
  case (Cons t ts)
  from getParent_forest [OF Cons.prems(1)] obtain p1
    where g1: "getParent p (tid t) = Some (rootf p (tid t), p1)"
      and f1: "forest p1" and e1: "rootf p1 = rootf p" by blast
  let ?g1 = "pushTerminal g (rootf p (tid t)) t"
  have ok1: "groupsOk (\<lambda>t. rootf p1 (tid t)) ?g1"
    unfolding e1 using pushTerminal_ok [OF Cons.prems(2), of t] by simp
  from Cons.prems(2) have d: "distinct (map fst g)" by (simp add: groupsOk_def)
  have full1: "groupsFull (\<lambda>t. rootf p1 (tid t)) (seen @ [t]) ?g1"
    unfolding e1 using pushTerminal_full [OF Cons.prems(3) d, of t] by simp
  from Cons.prems(4) g1 have gt: "groupTerminals p1 ?g1 ts = Some g'" by simp
  from Cons.IH [OF f1 ok1 full1 gt] show ?case unfolding e1 by simp
qed

lemma firstSeen_snoc:
  "firstSeen (xs @ [x]) = (if x \<in> set xs then firstSeen xs else firstSeen xs @ [x])"
  by (simp add: firstSeen_def)

lemma set_firstSeen: "set (firstSeen xs) = set xs"
  by (simp add: firstSeen_def)

lemma pushTerminal_firstSeen:
  assumes "map fst g = firstSeen (map key seen)"
  shows "map fst (pushTerminal g (key t) t) = firstSeen (map key (seen @ [t]))"
proof -
  have "fst ` set g = set (map fst g)" by simp
  also have "\<dots> = set (map key seen)" unfolding assms by (rule set_firstSeen)
  finally have "fst ` set g = set (map key seen)" .
  then show ?thesis by (simp add: pushTerminal_keys firstSeen_snoc assms)
qed

lemma groupTerminals_keys:
  assumes "forest p" and "map fst g = firstSeen (map (\<lambda>t. rootf p (tid t)) seen)"
    and "groupTerminals p g ts = Some g'"
  shows "map fst g' = firstSeen (map (\<lambda>t. rootf p (tid t)) (seen @ ts))"
  using assms
proof (induction ts arbitrary: p g seen)
  case Nil
  then show ?case by simp
next
  case (Cons t ts)
  from getParent_forest [OF Cons.prems(1)] obtain p1
    where g1: "getParent p (tid t) = Some (rootf p (tid t), p1)"
      and f1: "forest p1" and e1: "rootf p1 = rootf p" by blast
  let ?g1 = "pushTerminal g (rootf p (tid t)) t"
  have k1: "map fst ?g1 = firstSeen (map (\<lambda>t. rootf p1 (tid t)) (seen @ [t]))"
    unfolding e1 using pushTerminal_firstSeen [of g "\<lambda>t. rootf p (tid t)" seen t] Cons.prems(2)
    by simp
  from Cons.prems(3) g1 have gt: "groupTerminals p1 ?g1 ts = Some g'" by simp
  from Cons.IH [OF f1 k1 gt] show ?case unfolding e1 by simp
qed

lemma groupsFull_groupsOf:
  assumes "groupsFull key seen g" and "map fst g = firstSeen (map key seen)"
  shows "map snd g = groupsOf key seen"
proof -
  have "map snd g = map (\<lambda>k. filter (\<lambda>t. key t = k) seen) (map fst g)"
    unfolding map_map
  proof (rule map_cong [OF refl])
    fix e assume "e \<in> set g"
    then have "(fst e, snd e) \<in> set g" by simp
    with assms(1) have "snd e = filter (\<lambda>t. key t = fst e) seen" unfolding groupsFull_def by blast
    then show "snd e = ((\<lambda>k. filter (\<lambda>t. key t = k) seen) \<circ> fst) e" by simp
  qed
  then show ?thesis unfolding groupsOf_def assms(2) .
qed

lemma insort_key_map:
  "map h (insort_key (\<lambda>x. f (h x)) x ys) = insort_key f (h x) (map h ys)"
  by (induction ys) simp_all

lemma sort_key_map: "map h (sort_key (\<lambda>x. f (h x)) xs) = sort_key f (map h xs)"
  by (induction xs) (simp_all add: insort_key_map)

lemma sortNodes_terminals:
  "map nterminals (numberNodes (sortNodes (map (\<lambda>ts. \<lparr>nid = - 1, nterminals = ts\<rparr>) G)))
     = sort_key (\<lambda>ts. - int (length ts)) G"
proof -
  have "map nterminals (sortNodes (map (\<lambda>ts. \<lparr>nid = - 1, nterminals = ts\<rparr>) G))
      = sort_key (\<lambda>ts. - int (length ts)) (map nterminals (map (\<lambda>ts. \<lparr>nid = - 1, nterminals = ts\<rparr>) G))"
    unfolding sortNodes_def by (rule sort_key_map)
  then show ?thesis by (simp add: numberNodes_terminals comp_def)
qed

lemma extractNodes_groups:
  "\<exists>ns g (\<rho> :: string \<Rightarrow> string). extractNodes elements wires = Some ns
     \<and> ns = numberNodes (sortNodes (map (\<lambda>ts. \<lparr>nid = - 1, nterminals = ts\<rparr>) (map snd g)))
     \<and> groupsOk (\<lambda>t. \<rho> (tid t)) g
     \<and> groupsFull (\<lambda>t. \<rho> (tid t)) (allTerminals elements) g
     \<and> map fst g = firstSeen (map (\<lambda>t. \<rho> (tid t)) (allTerminals elements))
     \<and> (\<forall>k l. \<rho> k = \<rho> l \<longleftrightarrow> (k, l) \<in> joined wires)"
proof -
  from connectWires_joined obtain p where c: "connectWires Map.empty wires = Some p"
    and f: "forest p" and j: "\<forall>k l. rootf p k = rootf p l \<longleftrightarrow> (k, l) \<in> joined wires"
    by blast
  from groupTerminals_spec [OF f groupsOk_Nil, of "allTerminals elements"]
  obtain g where gt: "groupTerminals p [] (allTerminals elements) = Some g"
    and ok: "groupsOk (\<lambda>t. rootf p (tid t)) g" by auto
  have "groupsFull (\<lambda>t. rootf p (tid t)) [] []" by (simp add: groupsFull_def)
  from groupTerminals_full [OF f groupsOk_Nil this gt]
  have full: "groupsFull (\<lambda>t. rootf p (tid t)) (allTerminals elements) g" by simp
  have "map fst ([] :: nodeGroups) = firstSeen (map (\<lambda>t. rootf p (tid t)) [])"
    by (simp add: firstSeen_def)
  from groupTerminals_keys [OF f this gt]
  have keys: "map fst g = firstSeen (map (\<lambda>t. rootf p (tid t)) (allTerminals elements))" by simp
  have "extractNodes elements wires
      = Some (numberNodes (sortNodes (map (\<lambda>ts. \<lparr>nid = - 1, nterminals = ts\<rparr>) (map snd g))))"
    using c gt by (simp add: extractNodes_def)
  with ok full keys j show ?thesis by blast
qed

lemma extractNodes_sorted_groups:
  "\<exists>ns (\<rho> :: string \<Rightarrow> string). extractNodes elements wires = Some ns
     \<and> (\<forall>k l. \<rho> k = \<rho> l \<longleftrightarrow> (k, l) \<in> joined wires)
     \<and> map nterminals ns
        = sort_key (\<lambda>ts. - int (length ts)) (groupsOf (\<lambda>t. \<rho> (tid t)) (allTerminals elements))"
proof -
  from extractNodes_groups [of elements wires]
  obtain ns and g :: nodeGroups and \<rho> :: "string \<Rightarrow> string"
    where ex: "extractNodes elements wires = Some ns"
      and ns: "ns = numberNodes (sortNodes (map (\<lambda>ts. \<lparr>nid = - 1, nterminals = ts\<rparr>) (map snd g)))"
      and full: "groupsFull (\<lambda>t. \<rho> (tid t)) (allTerminals elements) g"
      and keys: "map fst g = firstSeen (map (\<lambda>t. \<rho> (tid t)) (allTerminals elements))"
      and j: "\<forall>k l. \<rho> k = \<rho> l \<longleftrightarrow> (k, l) \<in> joined wires" by blast
  have "map nterminals ns = sort_key (\<lambda>ts. - int (length ts)) (map snd g)"
    unfolding ns by (rule sortNodes_terminals)
  also have "map snd g = groupsOf (\<lambda>t. \<rho> (tid t)) (allTerminals elements)"
    using full keys by (rule groupsFull_groupsOf)
  finally show ?thesis using ex j by blast
qed

lemma extractNodes_whole_groups:
  assumes "extractNodes elements wires = Some ns" and "n \<in> set ns" and "t \<in> set (nterminals n)"
  shows "nterminals n
     = filter (\<lambda>u. (tid t, tid u) \<in> joined wires) (allTerminals elements)"
proof -
  from extractNodes_groups [of elements wires] assms(1)
  obtain g :: nodeGroups and \<rho> :: "string \<Rightarrow> string"
    where ns: "ns = numberNodes (sortNodes (map (\<lambda>ts. \<lparr>nid = - 1, nterminals = ts\<rparr>) (map snd g)))"
      and ok: "groupsOk (\<lambda>t. \<rho> (tid t)) g"
      and full: "groupsFull (\<lambda>t. \<rho> (tid t)) (allTerminals elements) g"
      and j: "\<forall>k l. \<rho> k = \<rho> l \<longleftrightarrow> (k, l) \<in> joined wires" by auto
  have "mset (map nterminals ns) = mset (map snd g)"
    unfolding ns by (rule extractNodes_terminals_mset)
  then have "nterminals ` set ns = snd ` set g" by (metis set_map set_mset_mset)
  with assms(2) obtain k where kg: "(k, nterminals n) \<in> set g" by force
  from groupsOkD [OF ok kg] assms(3) have k: "\<rho> (tid t) = k" by blast
  from full kg have "nterminals n = filter (\<lambda>u. \<rho> (tid u) = k) (allTerminals elements)"
    unfolding groupsFull_def by blast
  also have "\<dots> = filter (\<lambda>u. (tid t, tid u) \<in> joined wires) (allTerminals elements)"
  proof (rule filter_cong [OF refl])
    fix u
    from j have "\<rho> (tid t) = \<rho> (tid u) \<longleftrightarrow> (tid t, tid u) \<in> joined wires" by blast
    with k show "(\<rho> (tid u) = k) = ((tid t, tid u) \<in> joined wires)" by auto
  qed
  finally show ?thesis .
qed

lemma extractNodes_no_repeat:
  assumes "extractNodes elements wires = Some ns"
  shows "distinct (map nterminals ns)"
proof -
  from extractNodes_shape [of elements wires] assms obtain g :: nodeGroups
    and \<rho> :: "string \<Rightarrow> string"
    where ns: "ns = numberNodes (sortNodes (map (\<lambda>ts. \<lparr>nid = - 1, nterminals = ts\<rparr>) (map snd g)))"
      and ok: "groupsOk (\<lambda>t. \<rho> (tid t)) g" by auto
  have "mset (map nterminals ns) = mset (map snd g)"
    unfolding ns by (rule extractNodes_terminals_mset)
  with groupsOk_distinct [OF ok] show ?thesis by (metis mset_eq_imp_distinct_iff)
qed

lemma extractNodes_nonempty:
  assumes "extractNodes elements wires = Some ns" and "n \<in> set ns"
  shows "nterminals n \<noteq> []"
proof -
  from extractNodes_shape [of elements wires] assms(1) obtain g :: nodeGroups
    and \<rho> :: "string \<Rightarrow> string"
    where ns: "ns = numberNodes (sortNodes (map (\<lambda>ts. \<lparr>nid = - 1, nterminals = ts\<rparr>) (map snd g)))"
      and ok: "groupsOk (\<lambda>t. \<rho> (tid t)) g" by auto
  have "mset (map nterminals ns) = mset (map snd g)"
    unfolding ns by (rule extractNodes_terminals_mset)
  then have "nterminals ` set ns = snd ` set g" by (metis set_map set_mset_mset)
  with assms(2) obtain k where kg: "(k, nterminals n) \<in> set g" by force
  from groupsOkD [OF ok kg] show ?thesis by simp
qed

lemma extractNodes_filter: "extractNodes elements (filter bound wires) = extractNodes elements wires"
  by (simp add: extractNodes_def connectWires_filter)

lemma sortNodes_sorted:
  "i < j \<Longrightarrow> j < length ns \<Longrightarrow>
   length (nterminals (sortNodes ns ! j)) \<le> length (nterminals (sortNodes ns ! i))"
proof -
  assume ij: "i < j" "j < length ns"
  let ?key = "\<lambda>n. - int (length (nterminals n))"
  have len: "length (sortNodes ns) = length ns" by (simp add: sortNodes_def)
  have "sorted (map ?key (sortNodes ns))" unfolding sortNodes_def by (rule sorted_sort_key)
  then have "map ?key (sortNodes ns) ! i \<le> map ?key (sortNodes ns) ! j"
    using ij len by (intro sorted_nth_mono) simp_all
  then show ?thesis using ij len by simp
qed

lemma extractNodes_cover:
  assumes "extractNodes elements wires = Some ns" and "t \<in> set (allTerminals elements)"
  shows "\<exists>n \<in> set ns. t \<in> set (nterminals n)"
proof -
  from extractNodes_shape [of elements wires] assms(1) obtain g :: nodeGroups
    where ns: "ns = numberNodes (sortNodes (map (\<lambda>ts. \<lparr>nid = - 1, nterminals = ts\<rparr>) (map snd g)))"
      and st: "set (concat (map snd g)) = set (allTerminals elements)" by auto
  have "mset (map nterminals ns) = mset (map snd g)"
    unfolding ns by (rule extractNodes_terminals_mset)
  then have sets: "nterminals ` set ns = snd ` set g" by (metis set_map set_mset_mset)
  from assms(2) st have "t \<in> set (concat (map snd g))" by simp
  then obtain l where "l \<in> snd ` set g" "t \<in> set l" by auto
  with sets show ?thesis by (metis imageE)
qed

lemma extractNodes_ids:
  assumes "extractNodes elements wires = Some ns" and "i < length ns"
  shows "nid (ns ! i) = int i"
proof -
  from extractNodes_shape [of elements wires] assms(1) obtain g :: nodeGroups
    where ns: "ns = numberNodes (sortNodes (map (\<lambda>ts. \<lparr>nid = - 1, nterminals = ts\<rparr>) (map snd g)))"
    by auto
  from assms(2) show ?thesis unfolding ns by (simp add: numberNodes_length numberNodes_nth)
qed

lemmas example_defs =
  exTa_def exTb_def exTc_def exTd_def exTe_def exTf_def exV1_def exR1_def exV2_def exR2_def
  exWire_def exDangling_def exLoop_def exOpen_def exParallel_def exTg_def exTh_def exI1_def
  exDrive_def

lemmas extractNodes_eval =
  extractNodes_def allTerminals_def unionIds_def getParent.simps truthy_def sortNodes_def
  numberNodes_def enumerate_eq_zip

lemma exOpen_nodes: "extractNodes [exV1, exR1] exOpen = Some exOpenNodes"
  by (simp add: extractNodes_eval example_defs exOpenNodes_def)

lemma exLoop_nodes: "extractNodes [exV1, exR1] exLoop = Some exLoopNodes"
  by (simp add: extractNodes_eval example_defs exLoopNodes_def)

section \<open>Claims about \<open>extractNodes\<close>\<close>

text \<open>
  Claim C1. For every list of elements and wires, \<open>extractNodes\<close> returns, and its nodes
  partition the terminals of the elements: every terminal lies in exactly one node, no
  node is empty and every node holds element terminals only; two terminals lie in the same
  node if and only if their ids are joined by a chain of bound wires; and running on the
  bound wires alone gives the same nodes, so a wire with a missing endpoint has no effect.
  An endpoint is present when it passes the source's truthiness test.
\<close>

theorem extractNodes_partition:
  "\<exists>ns. extractNodes elements wires = Some ns
     \<and> (\<forall>t \<in> set (allTerminals elements). \<exists>!k. k < length ns \<and> t \<in> set (nterminals (ns ! k)))
     \<and> (\<forall>n \<in> set ns. nterminals n \<noteq> [] \<and> set (nterminals n) \<subseteq> set (allTerminals elements))
     \<and> (\<forall>t1 \<in> set (allTerminals elements). \<forall>t2 \<in> set (allTerminals elements).
          (\<exists>n \<in> set ns. t1 \<in> set (nterminals n) \<and> t2 \<in> set (nterminals n))
            \<longleftrightarrow> (tid t1, tid t2) \<in> joined wires)
     \<and> extractNodes elements (filter bound wires) = Some ns"
proof -
  from extractNodes_shape [of elements wires] obtain ns g \<rho>
    where ex: "extractNodes elements wires = Some ns"
      and ns: "ns = numberNodes (sortNodes (map (\<lambda>ts. \<lparr>nid = - 1, nterminals = ts\<rparr>) (map snd g)))"
      and ok: "groupsOk (\<lambda>t. \<rho> (tid t)) g"
      and st: "set (concat (map snd g)) = set (allTerminals elements)"
      and j: "\<forall>k l. \<rho> k = \<rho> l \<longleftrightarrow> (k, l) \<in> joined wires" by blast
  have ms: "mset (map nterminals ns) = mset (map snd g)"
    unfolding ns by (rule extractNodes_terminals_mset)
  then have sets: "nterminals ` set ns = snd ` set g"
    by (metis set_map set_mset_mset)
  have dist: "distinct (map nterminals ns)"
    using ms groupsOk_distinct [OF ok] by (metis mset_eq_imp_distinct_iff)
  have same: "\<rho> (tid t) = \<rho> (tid t') \<longleftrightarrow> nterminals n = nterminals n'"
    if "n \<in> set ns" "n' \<in> set ns" "t \<in> set (nterminals n)" "t' \<in> set (nterminals n')"
    for n n' t t'
    using groupsOk_same [OF ok, of "nterminals n" "nterminals n'" t t'] that sets by blast
  have cover: "\<exists>n \<in> set ns. t \<in> set (nterminals n)" if "t \<in> set (allTerminals elements)" for t
  proof -
    from that st have "t \<in> set (concat (map snd g))" by simp
    then obtain l where "l \<in> snd ` set g" "t \<in> set l" by auto
    with sets show ?thesis by (metis imageE)
  qed
  have part: "\<exists>!k. k < length ns \<and> t \<in> set (nterminals (ns ! k))"
    if t: "t \<in> set (allTerminals elements)" for t
  proof -
    from cover [OF t] obtain n where n: "n \<in> set ns" "t \<in> set (nterminals n)" by blast
    then obtain k where k: "k < length ns" "ns ! k = n" by (auto simp: in_set_conv_nth)
    show ?thesis
    proof (rule ex1I [of _ k])
      show "k < length ns \<and> t \<in> set (nterminals (ns ! k))" using k n by simp
    next
      fix k' assume k': "k' < length ns \<and> t \<in> set (nterminals (ns ! k'))"
      then have "nterminals (ns ! k') = nterminals (ns ! k)"
        using same [of "ns ! k'" "ns ! k" t t] k n by simp
      then have "map nterminals ns ! k' = map nterminals ns ! k" using k k' by simp
      moreover have "k' < length (map nterminals ns)" "k < length (map nterminals ns)"
        using k k' by simp_all
      ultimately show "k' = k" using dist nth_eq_iff_index_eq by blast
    qed
  qed
  have inside: "nterminals n \<noteq> [] \<and> set (nterminals n) \<subseteq> set (allTerminals elements)"
    if "n \<in> set ns" for n
  proof -
    from that sets obtain k where kl: "(k, nterminals n) \<in> set g" by force
    from groupsOkD [OF ok kl] have "nterminals n \<noteq> []" by simp
    moreover have "set (nterminals n) \<subseteq> set (concat (map snd g))" using kl by force
    ultimately show ?thesis using st by simp
  qed
  have conn: "(\<exists>n \<in> set ns. t1 \<in> set (nterminals n) \<and> t2 \<in> set (nterminals n))
            \<longleftrightarrow> (tid t1, tid t2) \<in> joined wires"
    if t1: "t1 \<in> set (allTerminals elements)" and t2: "t2 \<in> set (allTerminals elements)"
    for t1 t2
  proof
    assume "\<exists>n \<in> set ns. t1 \<in> set (nterminals n) \<and> t2 \<in> set (nterminals n)"
    then obtain n where "n \<in> set ns" "t1 \<in> set (nterminals n)" "t2 \<in> set (nterminals n)"
      by blast
    then have "\<rho> (tid t1) = \<rho> (tid t2)" using same [of n n t1 t2] by simp
    then show "(tid t1, tid t2) \<in> joined wires" using j by simp
  next
    assume "(tid t1, tid t2) \<in> joined wires"
    then have e: "\<rho> (tid t1) = \<rho> (tid t2)" using j by simp
    from cover [OF t1] obtain n1 where n1: "n1 \<in> set ns" "t1 \<in> set (nterminals n1)" by blast
    from cover [OF t2] obtain n2 where n2: "n2 \<in> set ns" "t2 \<in> set (nterminals n2)" by blast
    from same [OF n1(1) n2(1) n1(2) n2(2)] e have "nterminals n1 = nterminals n2" by simp
    with n1 n2 show "\<exists>n \<in> set ns. t1 \<in> set (nterminals n) \<and> t2 \<in> set (nterminals n)"
      by auto
  qed
  show ?thesis using ex part inside conn extractNodes_filter [of elements wires] by auto
qed

theorem extractNodes_partition_witness:
  "exTb \<in> set (allTerminals [exV1, exR1]) \<and> exTc \<in> set (allTerminals [exV1, exR1])
   \<and> exTa \<in> set (allTerminals [exV1, exR1])
   \<and> (tid exTb, tid exTc) \<in> joined exOpen \<and> (tid exTa, tid exTb) \<notin> joined exOpen
   \<and> (\<exists>!k. k < length exOpenNodes \<and> exTd \<in> set (nterminals (exOpenNodes ! k)))"
proof -
  have mem: "exTa \<in> set (allTerminals [exV1, exR1])" "exTb \<in> set (allTerminals [exV1, exR1])"
    "exTc \<in> set (allTerminals [exV1, exR1])" "exTd \<in> set (allTerminals [exV1, exR1])"
    by (simp_all add: allTerminals_def exV1_def exR1_def)
  from extractNodes_partition [of "[exV1, exR1]" exOpen]
  have part: "\<forall>t \<in> set (allTerminals [exV1, exR1]).
        \<exists>!k. k < length exOpenNodes \<and> t \<in> set (nterminals (exOpenNodes ! k))"
    and conn: "\<forall>t1 \<in> set (allTerminals [exV1, exR1]). \<forall>t2 \<in> set (allTerminals [exV1, exR1]).
        (\<exists>n \<in> set exOpenNodes. t1 \<in> set (nterminals n) \<and> t2 \<in> set (nterminals n))
          \<longleftrightarrow> (tid t1, tid t2) \<in> joined exOpen"
    unfolding exOpen_nodes by auto
  have "\<exists>n \<in> set exOpenNodes. exTb \<in> set (nterminals n) \<and> exTc \<in> set (nterminals n)"
    by (simp add: exOpenNodes_def)
  with conn mem have bc: "(tid exTb, tid exTc) \<in> joined exOpen" by blast
  have "\<not> (\<exists>n \<in> set exOpenNodes. exTa \<in> set (nterminals n) \<and> exTb \<in> set (nterminals n))"
    by (simp add: exOpenNodes_def example_defs)
  with conn mem have ab: "(tid exTa, tid exTb) \<notin> joined exOpen" by blast
  from part mem(4)
  have "\<exists>!k. k < length exOpenNodes \<and> exTd \<in> set (nterminals (exOpenNodes ! k))" by blast
  with mem bc ab show ?thesis by blast
qed

text \<open>
  Claim C2. \<open>extractNodes\<close> returns the node groups of its input, each of them once, in
  descending order of terminal count, and numbers them 0, 1, 2, ... in that order. The
  nodes returned are the groups: every terminal of an element is in a node, no node is
  empty, no list of terminals is returned twice, and the terminals of a node are, in the
  order of the elements, all the terminals whose ids are joined by bound wires to any one
  of them. The ids are the positions in the returned list. A node with a smaller id has at
  least as many terminals as a node with a larger id, and the node with id 0 (ground) has
  at least as many terminals as every node. Altogether the terminal lists of the nodes are
  the groups of the input, taken in the order in which their first terminals appear and
  sorted by descending size with a stable sort, so that groups of equal size keep that
  order; here \<open>\<rho>\<close> names the group of a terminal id.
\<close>

theorem extractNodes_numbering:
  "\<exists>ns. extractNodes elements wires = Some ns
     \<and> map nid ns = map int [0..<length ns]
     \<and> (\<forall>n \<in> set ns. \<forall>n' \<in> set ns.
           nid n < nid n' \<longrightarrow> length (nterminals n') \<le> length (nterminals n))
     \<and> (\<forall>n \<in> set ns. \<forall>n' \<in> set ns.
           nid n = 0 \<longrightarrow> length (nterminals n') \<le> length (nterminals n))
     \<and> distinct (map nterminals ns)
     \<and> (\<forall>t \<in> set (allTerminals elements). \<exists>n \<in> set ns. t \<in> set (nterminals n))
     \<and> (\<forall>n \<in> set ns. nterminals n \<noteq> []
           \<and> (\<forall>t \<in> set (nterminals n).
                 nterminals n
                   = filter (\<lambda>u. (tid t, tid u) \<in> joined wires) (allTerminals elements)))
     \<and> (\<exists>\<rho> :: string \<Rightarrow> string. (\<forall>k l. \<rho> k = \<rho> l \<longleftrightarrow> (k, l) \<in> joined wires)
           \<and> map nterminals ns
               = sort_key (\<lambda>ts. - int (length ts))
                   (groupsOf (\<lambda>t. \<rho> (tid t)) (allTerminals elements)))"
proof -
  from extractNodes_shape [of elements wires] obtain ns and g :: nodeGroups
    where ex: "extractNodes elements wires = Some ns"
      and ns: "ns = numberNodes (sortNodes (map (\<lambda>ts. \<lparr>nid = - 1, nterminals = ts\<rparr>) (map snd g)))"
    by blast
  define xs where "xs = map (\<lambda>ts. \<lparr>nid = - 1, nterminals = ts\<rparr>) (map snd g)"
  have ns': "ns = numberNodes (sortNodes xs)" using ns xs_def by simp
  have len: "length ns = length xs" by (simp add: ns' numberNodes_length sortNodes_def)
  have ids: "nid (ns ! i) = int i" if "i < length ns" for i
    using that by (simp add: ns' numberNodes_length numberNodes_nth)
  have terms: "nterminals (ns ! i) = nterminals (sortNodes xs ! i)" if "i < length ns" for i
    using that by (simp add: ns' numberNodes_length numberNodes_nth)
  have a: "map nid ns = map int [0..<length ns]"
    by (rule nth_equalityI) (simp_all add: ids)
  have b: "length (nterminals n') \<le> length (nterminals n)"
    if "n \<in> set ns" "n' \<in> set ns" "nid n < nid n'" for n n'
  proof -
    from that obtain i j where i: "i < length ns" "ns ! i = n" and j: "j < length ns" "ns ! j = n'"
      by (auto simp: in_set_conv_nth)
    with that(3) ids have "i < j" by auto
    from sortNodes_sorted [OF this, of xs] j len terms i show ?thesis by auto
  qed
  have c: "length (nterminals n') \<le> length (nterminals n)"
    if "n \<in> set ns" "n' \<in> set ns" "nid n = 0" for n n'
  proof -
    from that obtain i j where i: "i < length ns" "ns ! i = n" and j: "j < length ns" "ns ! j = n'"
      by (auto simp: in_set_conv_nth)
    from that(3) ids i have i0: "i = 0" by auto
    show ?thesis
    proof (cases "j = 0")
      case True
      with i0 i j show ?thesis by simp
    next
      case False
      with ids j that(3) have "nid n < nid n'" by auto
      from b [OF that(1,2) this] show ?thesis .
    qed
  qed
  have d: "distinct (map nterminals ns)" using ex by (rule extractNodes_no_repeat)
  have e: "\<exists>n \<in> set ns. t \<in> set (nterminals n)" if "t \<in> set (allTerminals elements)" for t
    using ex that by (rule extractNodes_cover)
  have f: "nterminals n \<noteq> []" if "n \<in> set ns" for n
    using ex that by (rule extractNodes_nonempty)
  have h: "nterminals n = filter (\<lambda>u. (tid t, tid u) \<in> joined wires) (allTerminals elements)"
    if "n \<in> set ns" "t \<in> set (nterminals n)" for n t
    using ex that by (rule extractNodes_whole_groups)
  from extractNodes_sorted_groups [of elements wires] ex
  have k: "\<exists>\<rho> :: string \<Rightarrow> string. (\<forall>k l. \<rho> k = \<rho> l \<longleftrightarrow> (k, l) \<in> joined wires)
           \<and> map nterminals ns
               = sort_key (\<lambda>ts. - int (length ts))
                   (groupsOf (\<lambda>t. \<rho> (tid t)) (allTerminals elements))" by auto
  from ex a b c d e f h k show ?thesis by blast
qed

theorem extractNodes_numbering_witness:
  "extractNodes [exV1, exR1] exOpen = Some exOpenNodes
   \<and> map nid exOpenNodes = [0, 1, 2]
   \<and> map nterminals exOpenNodes = [[exTb, exTc], [exTa], [exTd]]
   \<and> nid (exOpenNodes ! 0) < nid (exOpenNodes ! 2)
   \<and> length (nterminals (exOpenNodes ! 2)) \<le> length (nterminals (exOpenNodes ! 0))
   \<and> distinct (map nterminals exOpenNodes)
   \<and> [exTb, exTc]
       = filter (\<lambda>u. (tid exTb, tid u) \<in> joined exOpen) (allTerminals [exV1, exR1])"
proof -
  from extractNodes_numbering [of "[exV1, exR1]" exOpen]
  have ids: "map nid exOpenNodes = map int [0..<length exOpenNodes]"
    and ord: "\<forall>n \<in> set exOpenNodes. \<forall>n' \<in> set exOpenNodes.
        nid n < nid n' \<longrightarrow> length (nterminals n') \<le> length (nterminals n)"
    and dis: "distinct (map nterminals exOpenNodes)"
    and grp: "\<forall>n \<in> set exOpenNodes. nterminals n \<noteq> []
           \<and> (\<forall>t \<in> set (nterminals n).
                 nterminals n
                   = filter (\<lambda>u. (tid t, tid u) \<in> joined exOpen) (allTerminals [exV1, exR1]))"
    unfolding exOpen_nodes by auto
  have mem: "exOpenNodes ! 0 \<in> set exOpenNodes" "exOpenNodes ! 2 \<in> set exOpenNodes"
    by (simp_all add: exOpenNodes_def)
  have lt: "nid (exOpenNodes ! 0) < nid (exOpenNodes ! 2)" by (simp add: exOpenNodes_def)
  have ts: "map nterminals exOpenNodes = [[exTb, exTc], [exTa], [exTd]]"
    by (simp add: exOpenNodes_def)
  have t0: "nterminals (exOpenNodes ! 0) = [exTb, exTc]" by (simp add: exOpenNodes_def)
  from ids have ids': "map nid exOpenNodes = [0, 1, 2]" by (simp add: exOpenNodes_def)
  from ord mem lt
  have le: "length (nterminals (exOpenNodes ! 2)) \<le> length (nterminals (exOpenNodes ! 0))"
    by blast
  from grp mem(1) t0
  have "[exTb, exTc]
       = filter (\<lambda>u. (tid exTb, tid u) \<in> joined exOpen) (allTerminals [exV1, exR1])"
    by (metis list.set_intros(1))
  with exOpen_nodes ids' ts lt le dis show ?thesis by blast
qed

text \<open>
  Claim C8. Extraction is a function of its two arguments that always returns: for every
  list of elements and wires there is exactly one list of nodes, with its grouping, its ids
  and its ground node, that \<open>extractNodes\<close> yields. The parent map and the groups are
  created afresh in every call, so no run can influence another.
\<close>

theorem extractNodes_deterministic:
  "\<exists>!ns. extractNodes elements wires = Some ns"
  using extractNodes_shape [of elements wires] by auto

theorem extractNodes_deterministic_witness:
  "\<exists>!ns. extractNodes [exV1, exR1] exOpen = Some ns"
  using extractNodes_deterministic [of "[exV1, exR1]" exOpen] .

section \<open>The shape of a solver result\<close>

lemma bindE_eq_Inr: "bindE m f = Inr r \<longleftrightarrow> (\<exists>v. m = Inr v \<and> f v = Inr r)"
  by (cases m) auto

lemma extractVoltages_fold:
  assumes "foldE (\<lambda>nv i. bindE (vecGet x (int i)) (\<lambda>v. Inr (nv(int i + 1 \<mapsto> v)))) nv0 js = Inr nv"
  shows "dom nv = dom nv0 \<union> (\<lambda>i. int i + 1) ` set js
    \<and> (\<forall>k. k \<notin> (\<lambda>i. int i + 1) ` set js \<longrightarrow> nv k = nv0 k)
    \<and> (distinct js \<longrightarrow> (\<forall>i \<in> set js. i < length x \<and> nv (int i + 1) = Some (x ! i)))"
  using assms
proof (induction js arbitrary: nv0)
  case Nil
  then show ?case by simp
next
  case (Cons j js)
  from Cons.prems obtain v where v: "vecGet x (int j) = Inr v"
    and rest: "foldE (\<lambda>nv i. bindE (vecGet x (int i)) (\<lambda>v. Inr (nv(int i + 1 \<mapsto> v))))
                 (nv0(int j + 1 \<mapsto> v)) js = Inr nv"
    unfolding foldE.simps bindE_eq_Inr sum.inject by blast
  from v have jv: "j < length x" "v = x ! j" by (auto simp: vecGet_def split: if_splits)
  note IH = Cons.IH [OF rest]
  have d: "dom nv = dom nv0 \<union> (\<lambda>i. int i + 1) ` set (j # js)" using IH by auto
  have k: "\<forall>k. k \<notin> (\<lambda>i. int i + 1) ` set (j # js) \<longrightarrow> nv k = nv0 k" using IH by auto
  have v': "\<forall>i \<in> set (j # js). i < length x \<and> nv (int i + 1) = Some (x ! i)"
    if dist: "distinct (j # js)"
  proof
    fix i assume i: "i \<in> set (j # js)"
    show "i < length x \<and> nv (int i + 1) = Some (x ! i)"
    proof (cases "i = j")
      case True
      have "int j + 1 \<notin> (\<lambda>i. int i + 1) ` set js" using dist by auto
      with IH have "nv (int j + 1) = (nv0(int j + 1 \<mapsto> v)) (int j + 1)" by blast
      then show ?thesis using True jv by simp
    next
      case False
      with i have "i \<in> set js" by simp
      with IH dist show ?thesis by simp
    qed
  qed
  from d k v' show ?case by blast
qed

lemma extractVoltages_Inr:
  assumes ev: "extractVoltages n x = Inr nv" and n: "0 \<le> n"
  shows "nv 0 = Some (Fin 0)" and "dom nv = {0..n}"
    and "\<And>i. 0 < i \<Longrightarrow> i \<le> n \<Longrightarrow> nat (i - 1) < length x \<and> nv i = Some (x ! nat (i - 1))"
proof -
  note f = extractVoltages_fold [OF ev [unfolded extractVoltages_def]]
  have img: "(\<lambda>i. int i + 1) ` set [0..<nat n] = {1..n}"
  proof (rule set_eqI)
    fix k :: int
    have "k \<in> {1..n} \<Longrightarrow> k \<in> (\<lambda>i. int i + 1) ` set [0..<nat n]"
      by (rule image_eqI [where x = "nat (k - 1)"]) auto
    then show "k \<in> (\<lambda>i. int i + 1) ` set [0..<nat n] \<longleftrightarrow> k \<in> {1..n}" by auto
  qed
  have "(0::int) \<notin> {1..n}" by simp
  with f img show "nv 0 = Some (Fin 0)" by auto
  from f img have "dom nv = insert 0 {1..n}" by auto
  also have "\<dots> = {0..n}" using n by auto
  finally show "dom nv = {0..n}" .
  fix i :: int assume i: "0 < i" "i \<le> n"
  then have "nat (i - 1) \<in> set [0..<nat n]" by auto
  moreover have "distinct [0..<nat n]" by simp
  ultimately
  have "nat (i - 1) < length x \<and> nv (int (nat (i - 1)) + 1) = Some (x ! nat (i - 1))"
    using f by blast
  then show "nat (i - 1) < length x \<and> nv i = Some (x ! nat (i - 1))" using i by simp
qed

lemma deriveVSource_dom:
  assumes "deriveVSource nodes n x nv d ie = Inr d'"
  shows "dom (fst d') = insert (eid (snd ie)) (dom (fst d))
    \<and> dom (snd d') = insert (eid (snd ie)) (dom (snd d))"
  using assms by (cases d; cases ie) (auto simp: bindE_eq_Inr Let_def)

lemma deriveVSource_fold_dom:
  assumes "foldE (deriveVSource nodes n x nv) d ies = Inr d'"
  shows "dom (fst d') = dom (fst d) \<union> eid ` snd ` set ies
    \<and> dom (snd d') = dom (snd d) \<union> eid ` snd ` set ies"
  using assms
proof (induction ies arbitrary: d)
  case Nil
  then show ?case by simp
next
  case (Cons ie ies)
  from Cons.prems obtain d1 where s: "deriveVSource nodes n x nv d ie = Inr d1"
    and r: "foldE (deriveVSource nodes n x nv) d1 ies = Inr d'"
    by (auto simp: bindE_eq_Inr)
  from deriveVSource_dom [OF s] Cons.IH [OF r] show ?case by auto
qed

lemma deriveElement_dom:
  assumes "deriveElement nodes nv d e = Inr d'"
  shows "dom (fst d') = dom (fst d) \<union> (if isPassive e then {eid e} else {})
    \<and> dom (snd d') = dom (snd d) \<union> (if isPassive e then {eid e} else {})"
  using assms
  by (cases d; cases "etype e") (auto simp: bindE_eq_Inr Let_def isPassive_def)

lemma deriveElement_fold_dom:
  assumes "foldE (deriveElement nodes nv) d es = Inr d'"
  shows "dom (fst d') = dom (fst d) \<union> eid ` {e \<in> set es. isPassive e}
    \<and> dom (snd d') = dom (snd d) \<union> eid ` {e \<in> set es. isPassive e}"
  using assms
proof (induction es arbitrary: d)
  case Nil
  then show ?case by simp
next
  case (Cons e es)
  from Cons.prems obtain d1 where s: "deriveElement nodes nv d e = Inr d1"
    and r: "foldE (deriveElement nodes nv) d1 es = Inr d'"
    by (auto simp: bindE_eq_Inr)
  from deriveElement_dom [OF s] Cons.IH [OF r] show ?case by auto
qed

lemma element_ids_split:
  "eid ` set (vSourcesOf elements) \<union> eid ` {e \<in> set elements. isPassive e} = eid ` set elements"
proof -
  have "set (vSourcesOf elements) \<union> {e \<in> set elements. isPassive e} = set elements"
  proof -
    have "etype e = VoltageSource \<or> etype e = VCVS \<or> isPassive e" for e
      by (cases "etype e") (simp_all add: isPassive_def)
    then show ?thesis by (auto simp: vSourcesOf_def)
  qed
  then show ?thesis by (metis image_Un)
qed

lemma deriveResult_shape:
  assumes dr: "deriveResult nodes elements x = Inr r" and n: "0 \<le> numNodesOf nodes"
  shows "nodeVoltages r 0 = Some (Fin 0)"
    and "dom (nodeVoltages r) = {0..numNodesOf nodes}"
    and "dom (elementCurrents r) = eid ` set elements"
    and "dom (elementPower r) = eid ` set elements"
proof -
  from dr obtain nv d1 d2 where ev: "extractVoltages (numNodesOf nodes) x = Inr nv"
    and f1: "foldE (deriveVSource nodes (numNodesOf nodes) x nv) (Map.empty, Map.empty)
               (enumerate 0 (vSourcesOf elements)) = Inr d1"
    and f2: "foldE (deriveElement nodes nv) d1 elements = Inr d2"
    and r: "r = \<lparr>nodeVoltages = nv, elementCurrents = fst d2, elementPower = snd d2\<rparr>"
    by (auto simp: deriveResult_def Let_def bindE_eq_Inr)
  from extractVoltages_Inr(1,2) [OF ev n] r
  show "nodeVoltages r 0 = Some (Fin 0)" "dom (nodeVoltages r) = {0..numNodesOf nodes}"
    by simp_all
  have sn: "snd ` set (enumerate 0 (vSourcesOf elements)) = set (vSourcesOf elements)"
    by (metis map_snd_enumerate set_map)
  from deriveVSource_fold_dom [OF f1] sn
  have d1: "dom (fst d1) = eid ` set (vSourcesOf elements)"
    "dom (snd d1) = eid ` set (vSourcesOf elements)" by simp_all
  from deriveElement_fold_dom [OF f2] d1 element_ids_split [of elements] r
  show "dom (elementCurrents r) = eid ` set elements" "dom (elementPower r) = eid ` set elements"
    by simp_all
qed

lemma emptyResult_voltages: "nodeVoltages emptyResult 0 = None"
  by (simp add: emptyResult_def)

lemma solveCircuit_returns: "\<exists>res. solveCircuit linsolve elements wires = Some res"
proof -
  from extractNodes_shape [of elements wires] obtain ns
    where "extractNodes elements wires = Some ns" by blast
  then show ?thesis by (simp add: solveCircuit_def)
qed

lemma solveCircuit_cases:
  assumes "solveCircuit linsolve elements wires = Some (Inr r)"
  shows "(elements = [] \<and> r = emptyResult)
    \<or> (\<exists>nodes. elements \<noteq> [] \<and> extractNodes elements wires = Some nodes
          \<and> ((numNodesOf nodes \<le> 0 \<and> r = emptyResult)
             \<or> (\<exists>A z. 0 < numNodesOf nodes \<and> assemble nodes elements = Inr (A, z)
                  \<and> ((linsolve A z = None \<and> r = emptyResult)
                     \<or> (\<exists>x. linsolve A z = Some x \<and> deriveResult nodes elements x = Inr r)))))"
proof (cases "elements = []")
  case True
  with assms show ?thesis by (simp add: solveCircuit_def)
next
  case False
  with assms obtain nodes where ex: "extractNodes elements wires = Some nodes"
    and body: "(if numNodesOf nodes \<le> 0 then Inr emptyResult
              else bindE (assemble nodes elements) (\<lambda>(A, z).
                case linsolve A z of
                  None \<Rightarrow> Inr emptyResult
                | Some x \<Rightarrow> deriveResult nodes elements x)) = Inr r"
    by (auto simp: solveCircuit_def split: Option.bind_splits)
  show ?thesis
  proof (cases "numNodesOf nodes \<le> 0")
    case True
    with body False ex show ?thesis by auto
  next
    case pos: False
    with body obtain A z where asm: "assemble nodes elements = Inr (A, z)"
      and sol: "(case linsolve A z of None \<Rightarrow> Inr emptyResult
                 | Some x \<Rightarrow> deriveResult nodes elements x) = Inr r"
      by (auto simp: bindE_eq_Inr)
    from sol have "(linsolve A z = None \<and> r = emptyResult)
        \<or> (\<exists>x. linsolve A z = Some x \<and> deriveResult nodes elements x = Inr r)"
      by (cases "linsolve A z") auto
    with pos asm False ex show ?thesis by auto
  qed
qed

lemma solveCircuit_solved:
  assumes s: "solveCircuit linsolve elements wires = Some (Inr r)" and ne: "r \<noteq> emptyResult"
  shows "\<exists>nodes A z x. elements \<noteq> [] \<and> extractNodes elements wires = Some nodes
     \<and> 0 < numNodesOf nodes \<and> assemble nodes elements = Inr (A, z)
     \<and> linsolve A z = Some x \<and> deriveResult nodes elements x = Inr r"
  using solveCircuit_cases [OF s] ne by auto

section \<open>The example circuits, evaluated\<close>

lemmas assemble_eval =
  assemble_def numNodesOf_def vSourcesOf_def zerosMat_def zerosVec_def
  getNodeIndex_def terminalIdAt_def stampResistor_def stampCurrentSource_def
  matAdd_def matSub_def vecAdd_def vecSub_def matGet_def matSet_def vecGet_def vecSet_def
  inMat_def setRowOf_def setColOf_def GMIN_def ndiv_def plus_number_def minus_number_def
  times_number_def uminus_number_def abs_number_def eval_nat_numeral

lemmas exactSolve_eval =
  exactSolve_def finOf_def replaceCol_def removeAt_def eval_nat_numeral upt_rec

lemmas derive_eval =
  deriveResult_def extractVoltages_def numNodesOf_def vSourcesOf_def voltageOf_def
  getNodeIndex_def terminalIdAt_def vecGet_def ndiv_def plus_number_def minus_number_def
  times_number_def uminus_number_def abs_number_def eval_nat_numeral upt_rec

lemma exLoop_assemble: "assemble exLoopNodes [exV1, exR1] = Inr (exLoopA, exLoopZ)"
  by (simp add: assemble_eval example_defs exLoopNodes_def exLoopA_def exLoopZ_def)

lemma exLoop_solve: "exactSolve exLoopA exLoopZ = Some exLoopX"
  by (simp add: exactSolve_eval exLoopA_def exLoopZ_def exLoopX_def)

lemma exLoop_derive: "deriveResult exLoopNodes [exV1, exR1] exLoopX = Inr exLoopResult"
  by (simp add: derive_eval example_defs exLoopNodes_def exLoopX_def exLoopResult_def)

lemma exLoop_numNodes: "numNodesOf exLoopNodes = 1"
  by (simp add: numNodesOf_def exLoopNodes_def)

lemma exLoop_result: "solveCircuit exactSolve [exV1, exR1] exLoop = Some (Inr exLoopResult)"
  by (simp add: solveCircuit_def exLoop_nodes exLoop_numNodes exLoop_assemble exLoop_solve
      exLoop_derive)

lemma exLoopResult_nonempty: "exLoopResult \<noteq> emptyResult"
proof
  assume "exLoopResult = emptyResult"
  then have "nodeVoltages exLoopResult 0 = nodeVoltages emptyResult 0" by simp
  then show False by (simp add: exLoopResult_def emptyResult_def)
qed

lemma exParallel_nodes: "extractNodes [exV1, exV2] exParallel = Some exParallelNodes"
  by (simp add: extractNodes_eval example_defs exParallelNodes_def)

lemma exParallel_numNodes: "numNodesOf exParallelNodes = 1"
  by (simp add: numNodesOf_def exParallelNodes_def)

lemma exParallel_assemble:
  "assemble exParallelNodes [exV1, exV2] = Inr (exParallelA, exParallelZ)"
  by (simp add: assemble_eval example_defs exParallelNodes_def exParallelA_def exParallelZ_def)

lemma exParallel_solve: "exactSolve exParallelA exParallelZ = None"
  by (simp add: exactSolve_eval exParallelA_def exParallelZ_def)

lemma exParallel_result: "solveCircuit exactSolve [exV1, exV2] exParallel = Some (Inr emptyResult)"
  by (simp add: solveCircuit_def exParallel_nodes exParallel_numNodes exParallel_assemble
      exParallel_solve)







lemma exDrive_nodes: "extractNodes [exI1, exR1] exDrive = Some exDriveNodes"
  by (simp add: extractNodes_eval example_defs exDriveNodes_def)

lemma exDrive_numNodes: "numNodesOf exDriveNodes = 1"
  by (simp add: numNodesOf_def exDriveNodes_def)

lemma exDrive_assemble: "assemble exDriveNodes [exI1, exR1] = Inr (exDriveA, exDriveZ)"
  by (simp add: assemble_eval example_defs exDriveNodes_def exDriveA_def exDriveZ_def)

lemma exDrive_solve: "exactSolve exDriveA exDriveZ = Some exDriveX"
  by (simp add: exactSolve_eval exDriveA_def exDriveZ_def exDriveX_def)

lemma exDrive_derive: "deriveResult exDriveNodes [exI1, exR1] exDriveX = Inr exDriveResult"
  by (simp add: derive_eval example_defs exDriveNodes_def exDriveX_def exDriveResult_def)

lemma exDrive_result: "solveCircuit exactSolve [exI1, exR1] exDrive = Some (Inr exDriveResult)"
  by (simp add: solveCircuit_def exDrive_nodes exDrive_numNodes exDrive_assemble exDrive_solve
      exDrive_derive)

lemma exDriveResult_nonempty: "exDriveResult \<noteq> emptyResult"
proof
  assume "exDriveResult = emptyResult"
  then have "nodeVoltages exDriveResult 0 = nodeVoltages emptyResult 0" by simp
  then show False by (simp add: exDriveResult_def emptyResult_def)
qed

lemma exDrive_solves: "solves exDriveA exDriveX exDriveZ"
  by (simp add: solves_def exDriveA_def exDriveX_def exDriveZ_def plus_number_def
      times_number_def)

section \<open>Claims about the shape of the result\<close>

text \<open>
  Claim C4. Whenever \<open>solveCircuit\<close> returns a result other than the empty one, the
  \<open>nodeVoltages\<close> map of that result has the entry 0 \<open>\<mapsto>\<close> 0: the voltage of the ground node is
  exactly zero, whatever the topology and whatever the linear solver computed.
\<close>

theorem ground_voltage_zero:
  assumes "solveCircuit linsolve elements wires = Some (Inr r)" and "r \<noteq> emptyResult"
  shows "nodeVoltages r 0 = Some (Fin 0)"
proof -
  from solveCircuit_solved [OF assms] obtain nodes x
    where n: "0 < numNodesOf nodes" and dr: "deriveResult nodes elements x = Inr r" by blast
  from n have "0 \<le> numNodesOf nodes" by simp
  from deriveResult_shape(1) [OF dr this] show ?thesis .
qed

theorem ground_voltage_zero_witness:
  "solveCircuit exactSolve [exV1, exR1] exLoop = Some (Inr exLoopResult)
   \<and> exLoopResult \<noteq> emptyResult \<and> nodeVoltages exLoopResult 0 = Some (Fin 0)"
  using ground_voltage_zero [OF exLoop_result exLoopResult_nonempty]
    exLoop_result exLoopResult_nonempty by simp

text \<open>
  Claim C10. Whenever \<open>solveCircuit\<close> returns a result other than the empty one, the keys of
  \<open>elementCurrents\<close> and of \<open>elementPower\<close> are exactly the ids of the elements, of all four
  kinds, and the keys of \<open>nodeVoltages\<close> are exactly the integers from 0 to the number of
  non-ground nodes, which is the number of extracted nodes minus one.
\<close>

theorem result_key_sets:
  assumes "solveCircuit linsolve elements wires = Some (Inr r)" and "r \<noteq> emptyResult"
  shows "dom (elementCurrents r) = eid ` set elements
    \<and> dom (elementPower r) = eid ` set elements
    \<and> (\<exists>nodes. extractNodes elements wires = Some nodes
          \<and> dom (nodeVoltages r) = {0..int (length nodes) - 1})"
proof -
  from solveCircuit_solved [OF assms] obtain nodes x
    where ex: "extractNodes elements wires = Some nodes"
      and n: "0 < numNodesOf nodes" and dr: "deriveResult nodes elements x = Inr r" by blast
  from n have n0: "0 \<le> numNodesOf nodes" by simp
  from deriveResult_shape(2) [OF dr n0]
  have "dom (nodeVoltages r) = {0..int (length nodes) - 1}" by (simp add: numNodesOf_def)
  with ex deriveResult_shape(3,4) [OF dr n0] show ?thesis by blast
qed

theorem result_key_sets_witness:
  "solveCircuit exactSolve [exV1, exR1] exLoop = Some (Inr exLoopResult)
   \<and> exLoopResult \<noteq> emptyResult
   \<and> dom (elementCurrents exLoopResult) = {''v1'', ''r1''}
   \<and> dom (elementPower exLoopResult) = {''v1'', ''r1''}
   \<and> dom (nodeVoltages exLoopResult) = {0..1}"
proof -
  from result_key_sets [OF exLoop_result exLoopResult_nonempty]
  have "dom (elementCurrents exLoopResult) = eid ` set [exV1, exR1]"
    and "dom (elementPower exLoopResult) = eid ` set [exV1, exR1]"
    and "dom (nodeVoltages exLoopResult) = {0..int (length exLoopNodes) - 1}"
    by (simp_all add: exLoop_nodes)
  moreover have "eid ` set [exV1, exR1] = {''v1'', ''r1''}" by (simp add: exV1_def exR1_def)
  moreover have "int (length exLoopNodes) - 1 = 1" by (simp add: exLoopNodes_def)
  ultimately show ?thesis using exLoop_result exLoopResult_nonempty by simp
qed

text \<open>
  Claim C5, as stated: \<open>solveCircuit\<close> returns the empty result exactly when there are no
  elements or no non-ground node. This fails: two voltage sources in parallel give a
  singular system, the linear solver fails, and the \<open>catch\<close> returns the empty result for a
  circuit with two elements and one non-ground node.
\<close>

theorem empty_result_counterexample:
  "solveCircuit exactSolve [exV1, exV2] exParallel = Some (Inr emptyResult)
   \<and> [exV1, exV2] \<noteq> []
   \<and> extractNodes [exV1, exV2] exParallel = Some exParallelNodes
   \<and> numNodesOf exParallelNodes = 1"
  by (simp add: exParallel_result exParallel_nodes exParallel_numNodes)

text \<open>
  Claim C5, amended. \<open>solveCircuit\<close> returns the empty result exactly when there are no
  elements, or there is no non-ground node, or the linear solver fails on the assembled
  system.
\<close>

theorem empty_result_iff:
  assumes "solveCircuit linsolve elements wires = Some (Inr r)"
  shows "r = emptyResult \<longleftrightarrow>
     elements = []
     \<or> (\<exists>nodes. extractNodes elements wires = Some nodes
          \<and> (numNodesOf nodes \<le> 0
             \<or> (\<exists>A z. assemble nodes elements = Inr (A, z) \<and> linsolve A z = None)))"
proof
  assume e: "r = emptyResult"
  show "elements = []
     \<or> (\<exists>nodes. extractNodes elements wires = Some nodes
          \<and> (numNodesOf nodes \<le> 0
             \<or> (\<exists>A z. assemble nodes elements = Inr (A, z) \<and> linsolve A z = None)))"
  proof (rule ccontr)
    assume neg: "\<not> ?thesis"
    with solveCircuit_cases [OF assms] obtain nodes x
      where n: "0 < numNodesOf nodes" and dr: "deriveResult nodes elements x = Inr r"
      by blast
    from n have "0 \<le> numNodesOf nodes" by simp
    from deriveResult_shape(1) [OF dr this] e show False by (simp add: emptyResult_voltages)
  qed
next
  assume "elements = []
     \<or> (\<exists>nodes. extractNodes elements wires = Some nodes
          \<and> (numNodesOf nodes \<le> 0
             \<or> (\<exists>A z. assemble nodes elements = Inr (A, z) \<and> linsolve A z = None)))"
  with solveCircuit_cases [OF assms] show "r = emptyResult" by auto
qed

theorem empty_result_iff_witness:
  "solveCircuit exactSolve [exV1, exV2] exParallel = Some (Inr emptyResult)
   \<and> (emptyResult = emptyResult \<longleftrightarrow>
        [exV1, exV2] = []
        \<or> (\<exists>nodes. extractNodes [exV1, exV2] exParallel = Some nodes
             \<and> (numNodesOf nodes \<le> 0
                \<or> (\<exists>A z. assemble nodes [exV1, exV2] = Inr (A, z) \<and> exactSolve A z = None))))"
  using empty_result_iff [OF exParallel_result] exParallel_result by blast

section \<open>Resolving terminals to nodes\<close>

lemma getNodeIndex_found:
  assumes "n \<in> set nodes" and "t \<in> set (nterminals n)"
  shows "\<exists>n' \<in> set nodes. getNodeIndex nodes (tid t) = nid n'"
proof -
  let ?P = "\<lambda>n. list_ex (\<lambda>t'. tid t' = tid t) (nterminals n)"
  from assms have "?P n" by (auto simp: list_ex_iff)
  with assms(1) have "find ?P nodes \<noteq> None" by (auto simp: find_None_iff)
  then obtain n' where f: "find ?P nodes = Some n'" by auto
  then have "n' \<in> set nodes" by (auto simp: find_Some_iff)
  with f show ?thesis by (auto simp: getNodeIndex_def)
qed

lemma getNodeIndex_missing:
  assumes "\<forall>n \<in> set nodes. \<forall>t \<in> set (nterminals n). tid t \<noteq> u"
  shows "getNodeIndex nodes u = - 1"
proof -
  from assms have "find (\<lambda>n. list_ex (\<lambda>t. tid t = u) (nterminals n)) nodes = None"
    by (auto simp: find_None_iff list_ex_iff)
  then show ?thesis by (simp add: getNodeIndex_def)
qed

lemma getNodeIndex_range:
  assumes ids: "\<forall>i < length nodes. nid (nodes ! i) = int i"
  shows "- 1 \<le> getNodeIndex nodes u \<and> getNodeIndex nodes u < int (length nodes)"
proof (cases "find (\<lambda>n. list_ex (\<lambda>t. tid t = u) (nterminals n)) nodes")
  case None
  then show ?thesis by (simp add: getNodeIndex_def)
next
  case (Some n)
  then have "n \<in> set nodes" by (auto simp: find_Some_iff)
  then obtain i where "i < length nodes" "nodes ! i = n" by (auto simp: in_set_conv_nth)
  with ids have "nid n = int i" by auto
  with Some \<open>i < length nodes\<close> show ?thesis by (simp add: getNodeIndex_def)
qed

lemma extractNodes_resolves:
  assumes ex: "extractNodes elements wires = Some nodes"
    and e: "e \<in> set elements" and t: "t \<in> set (terminals e)"
  shows "0 \<le> getNodeIndex nodes (tid t) \<and> getNodeIndex nodes (tid t) < int (length nodes)"
proof -
  from e t have "t \<in> set (allTerminals elements)" by (auto simp: allTerminals_def)
  from extractNodes_cover [OF ex this] obtain n where "n \<in> set nodes" "t \<in> set (nterminals n)"
    by blast
  from getNodeIndex_found [OF this] obtain n' where n': "n' \<in> set nodes"
    and g: "getNodeIndex nodes (tid t) = nid n'" by blast
  from n' obtain i where i: "i < length nodes" "nodes ! i = n'" by (auto simp: in_set_conv_nth)
  from extractNodes_ids [OF ex i(1)] i(2) have "nid n' = int i" by simp
  with g i(1) show ?thesis by simp
qed

section \<open>Resistor current and power\<close>









section \<open>What assembly leaves in the rows of the voltage sources\<close>

lemma keepsRows_refl: "keepsRows n A A"
  by (simp add: keepsRows_def)

lemma keepsRows_trans: "keepsRows n A B \<Longrightarrow> keepsRows n B C \<Longrightarrow> keepsRows n A C"
  by (simp add: keepsRows_def)

lemma keepsEntries_refl: "keepsEntries n z z"
  by (simp add: keepsEntries_def)

lemma keepsEntries_trans: "keepsEntries n a b \<Longrightarrow> keepsEntries n b c \<Longrightarrow> keepsEntries n a c"
  by (simp add: keepsEntries_def)

lemma matSet_Inr:
  assumes "matSet A i j v = Inr A'"
  shows "A' = A[nat i := (A ! nat i)[nat j := v]]" and "0 \<le> i" and "nat i < length A"
    and "0 \<le> j" and "nat j < length (A ! nat i)"
  using assms by (auto simp: matSet_def inMat_def split: if_splits)

lemma matSet_keepsRows:
  assumes "matSet A i j v = Inr A'" and "i < int n"
  shows "keepsRows n A A'"
proof -
  note s = matSet_Inr [OF assms(1)]
  have "length (A' ! k) = length (A ! k)" if "k < length A" for k
    using that s(1) by (cases "k = nat i") simp_all
  moreover have "A' ! k = A ! k" if "n \<le> k" for k
    using that s(1,2) assms(2) by simp
  ultimately show ?thesis using s(1) by (simp add: keepsRows_def)
qed

lemma matAdd_keepsRows:
  assumes "matAdd A i j v = Inr A'" and "i < int n"
  shows "keepsRows n A A'"
proof -
  from assms(1) obtain old where "matSet A i j (old + v) = Inr A'"
    unfolding matAdd_def bindE_eq_Inr by blast
  then show ?thesis using assms(2) by (rule matSet_keepsRows)
qed

lemma matSub_keepsRows:
  assumes "matSub A i j v = Inr A'" and "i < int n"
  shows "keepsRows n A A'"
proof -
  from assms(1) obtain old where "matSet A i j (old - v) = Inr A'"
    unfolding matSub_def bindE_eq_Inr by blast
  then show ?thesis using assms(2) by (rule matSet_keepsRows)
qed

lemma stampResistor_keepsRows:
  assumes s: "stampResistor g t1 t2 A = Inr A'" and t: "t1 \<le> int n" "t2 \<le> int n"
  shows "keepsRows n A A'"
proof -
  from s obtain A1 A2 where a1: "(if t1 > 0 then matAdd A (t1 - 1) (t1 - 1) g else Inr A) = Inr A1"
    and a2: "(if t2 > 0 then matAdd A1 (t2 - 1) (t2 - 1) g else Inr A1) = Inr A2"
    and a3: "(if t1 > 0 \<and> t2 > 0
       then bindE (matSub A2 (t1 - 1) (t2 - 1) g) (\<lambda>A3. matSub A3 (t2 - 1) (t1 - 1) g)
       else Inr A2) = Inr A'"
    unfolding stampResistor_def bindE_eq_Inr by blast
  have lt: "t1 - 1 < int n" "t2 - 1 < int n" using t by simp_all
  have k1: "keepsRows n A A1"
  proof (cases "t1 > 0")
    case True
    with a1 have "matAdd A (t1 - 1) (t1 - 1) g = Inr A1" by simp
    then show ?thesis using lt(1) by (rule matAdd_keepsRows)
  next
    case False
    with a1 show ?thesis by (simp add: keepsRows_refl)
  qed
  have k2: "keepsRows n A1 A2"
  proof (cases "t2 > 0")
    case True
    with a2 have "matAdd A1 (t2 - 1) (t2 - 1) g = Inr A2" by simp
    then show ?thesis using lt(2) by (rule matAdd_keepsRows)
  next
    case False
    with a2 show ?thesis by (simp add: keepsRows_refl)
  qed
  have k3: "keepsRows n A2 A'"
  proof (cases "t1 > 0 \<and> t2 > 0")
    case True
    with a3 have "bindE (matSub A2 (t1 - 1) (t2 - 1) g) (\<lambda>A3. matSub A3 (t2 - 1) (t1 - 1) g)
        = Inr A'" by simp
    then obtain A3 where m1: "matSub A2 (t1 - 1) (t2 - 1) g = Inr A3"
      and m2: "matSub A3 (t2 - 1) (t1 - 1) g = Inr A'"
      unfolding bindE_eq_Inr by blast
    from matSub_keepsRows [OF m1 lt(1)] matSub_keepsRows [OF m2 lt(2)]
    show ?thesis by (rule keepsRows_trans)
  next
    case False
    with a3 show ?thesis by (simp add: keepsRows_refl)
  qed
  from k1 k2 have "keepsRows n A A2" by (rule keepsRows_trans)
  then show ?thesis using k3 by (rule keepsRows_trans)
qed

lemma vecSet_Inr:
  assumes "vecSet z i v = Inr z'"
  shows "z' = z[nat i := v]" and "0 \<le> i" and "nat i < length z"
  using assms by (auto simp: vecSet_def split: if_splits)

lemma vecSet_keepsEntries:
  assumes "vecSet z i v = Inr z'" and "i < int n"
  shows "keepsEntries n z z'"
  using vecSet_Inr [OF assms(1)] assms(2) by (simp add: keepsEntries_def)

lemma vecAdd_keepsEntries:
  assumes "vecAdd z i v = Inr z'" and "i < int n"
  shows "keepsEntries n z z'"
proof -
  from assms(1) obtain old where "vecSet z i (old + v) = Inr z'"
    unfolding vecAdd_def bindE_eq_Inr by blast
  then show ?thesis using assms(2) by (rule vecSet_keepsEntries)
qed

lemma vecSub_keepsEntries:
  assumes "vecSub z i v = Inr z'" and "i < int n"
  shows "keepsEntries n z z'"
proof -
  from assms(1) obtain old where "vecSet z i (old - v) = Inr z'"
    unfolding vecSub_def bindE_eq_Inr by blast
  then show ?thesis using assms(2) by (rule vecSet_keepsEntries)
qed

lemma stampCurrentSource_keepsEntries:
  assumes s: "stampCurrentSource v tA tB z = Inr z'" and t: "tA \<le> int n" "tB \<le> int n"
  shows "keepsEntries n z z'"
proof -
  from s obtain z1 where a1: "(if tA > 0 then vecAdd z (tA - 1) v else Inr z) = Inr z1"
    and a2: "(if tB > 0 then vecSub z1 (tB - 1) v else Inr z1) = Inr z'"
    unfolding stampCurrentSource_def bindE_eq_Inr by blast
  have lt: "tA - 1 < int n" "tB - 1 < int n" using t by simp_all
  have k1: "keepsEntries n z z1"
  proof (cases "tA > 0")
    case True
    with a1 have "vecAdd z (tA - 1) v = Inr z1" by simp
    then show ?thesis using lt(1) by (rule vecAdd_keepsEntries)
  next
    case False
    with a1 show ?thesis by (simp add: keepsEntries_refl)
  qed
  have k2: "keepsEntries n z1 z'"
  proof (cases "tB > 0")
    case True
    with a2 have "vecSub z1 (tB - 1) v = Inr z'" by simp
    then show ?thesis using lt(2) by (rule vecSub_keepsEntries)
  next
    case False
    with a2 show ?thesis by (simp add: keepsEntries_refl)
  qed
  from k1 k2 show ?thesis by (rule keepsEntries_trans)
qed

lemma stampElement_keeps:
  assumes s: "stampElement nodes (A, z) e = Inr (A', z')"
    and g: "\<forall>u. getNodeIndex nodes u \<le> int n"
  shows "keepsRows n A A' \<and> keepsEntries n z z'"
proof (cases "etype e")
  case Resistor
  with s obtain a b where "stampResistor (ndiv (Fin 1) (evalue e)) (getNodeIndex nodes a)
      (getNodeIndex nodes b) A = Inr A'" and "z' = z"
    by (auto simp: bindE_eq_Inr Let_def)
  with g show ?thesis by (auto intro: stampResistor_keepsRows keepsEntries_refl)
next
  case CurrentSource
  with s obtain a b where "stampCurrentSource (Fin (evalue e)) (getNodeIndex nodes a)
      (getNodeIndex nodes b) z = Inr z'" and "A' = A"
    by (auto simp: bindE_eq_Inr)
  with g show ?thesis by (auto intro: stampCurrentSource_keepsEntries keepsRows_refl)
next
  case VoltageSource
  with s show ?thesis by (auto intro: keepsRows_refl keepsEntries_refl)
next
  case VCVS
  with s show ?thesis by (auto intro: keepsRows_refl keepsEntries_refl)
qed

lemma stampElement_fold_keeps:
  assumes "foldE (stampElement nodes) (A, z) es = Inr (A', z')"
    and g: "\<forall>u. getNodeIndex nodes u \<le> int n"
  shows "keepsRows n A A' \<and> keepsEntries n z z'"
  using assms(1)
proof (induction es arbitrary: A z)
  case Nil
  then show ?case by (simp add: keepsRows_refl keepsEntries_refl)
next
  case (Cons e es)
  from Cons.prems obtain A1 z1 where s: "stampElement nodes (A, z) e = Inr (A1, z1)"
    and r: "foldE (stampElement nodes) (A1, z1) es = Inr (A', z')"
    by (auto simp: bindE_eq_Inr)
  from stampElement_keeps [OF s g] Cons.IH [OF r] show ?case
    by (blast intro: keepsRows_trans keepsEntries_trans)
qed

lemma gmin_fold_keepsRows:
  assumes "foldE (\<lambda>A i. matAdd A (int i) (int i) v) A js = Inr A'" and "\<forall>i \<in> set js. i < n"
  shows "keepsRows n A A'"
  using assms
proof (induction js arbitrary: A)
  case Nil
  then show ?case by (simp add: keepsRows_refl)
next
  case (Cons j js)
  from Cons.prems(1) obtain A1 where s: "matAdd A (int j) (int j) v = Inr A1"
    and r: "foldE (\<lambda>A i. matAdd A (int i) (int i) v) A1 js = Inr A'"
    by (auto simp: bindE_eq_Inr)
  from Cons.prems(2) have "int j < int n" "\<forall>i \<in> set js. i < n" by simp_all
  from matAdd_keepsRows [OF s this(1)] Cons.IH [OF r this(2)] show ?case
    by (rule keepsRows_trans)
qed

lemma onlyRow_refl: "onlyRow r A A"
  by (simp add: onlyRow_def)

lemma onlyRow_trans: "onlyRow r A B \<Longrightarrow> onlyRow r B C \<Longrightarrow> onlyRow r A C"
  by (simp add: onlyRow_def)

lemma setRowOf_keepsRows:
  assumes "setRowOf p c v A = Inr A'" and "p \<le> int n"
  shows "keepsRows n A A'"
proof (cases "p > 0")
  case True
  with assms(1) have "matSet A (p - 1) c v = Inr A'" by (simp add: setRowOf_def)
  moreover have "p - 1 < int n" using assms(2) by simp
  ultimately show ?thesis by (rule matSet_keepsRows)
next
  case False
  with assms(1) show ?thesis by (simp add: setRowOf_def keepsRows_refl)
qed

lemma setColOf_spec:
  assumes "setColOf (int r) p v A = Inr A'"
  shows "onlyRow r A A'"
    and "A' ! r = (if p > 0 then (A ! r)[nat (p - 1) := v] else A ! r)"
proof -
  have "onlyRow r A A' \<and> A' ! r = (if p > 0 then (A ! r)[nat (p - 1) := v] else A ! r)"
  proof (cases "p > 0")
    case True
    with assms have m: "matSet A (int r) (p - 1) v = Inr A'" by (simp add: setColOf_def)
    note s = matSet_Inr [OF m]
    have "length (A' ! k) = length (A ! k)" if "k < length A" for k
      using that s(1) by (cases "k = r") simp_all
    moreover have "A' ! k = A ! k" if "k \<noteq> r" for k using that s(1) by simp
    moreover have "A' ! r = (A ! r)[nat (p - 1) := v]" using s(1,3) by simp
    ultimately show ?thesis using True s(1) by (simp add: onlyRow_def)
  next
    case False
    with assms show ?thesis by (simp add: setColOf_def onlyRow_refl)
  qed
  then show "onlyRow r A A'"
    and "A' ! r = (if p > 0 then (A ! r)[nat (p - 1) := v] else A ! r)" by simp_all
qed

lemma stampVSource_other:
  assumes s: "stampVSource nodes (int n) (A, z) (idx, e) = Inr (A', z')"
    and g: "\<forall>u. getNodeIndex nodes u \<le> int n"
  shows "\<exists>A2. keepsRows n A A2 \<and> onlyRow (n + idx) A2 A'"
    and "length z' = length z" and "\<forall>i. i \<noteq> n + idx \<longrightarrow> z' ! i = z ! i"
proof -
  from s obtain a b A1 A2 where ta: "terminalIdAt e 0 = Inr a" and tb: "terminalIdAt e 1 = Inr b"
    and a1: "setRowOf (getNodeIndex nodes a) (int n + int idx) (Fin 1) A = Inr A1"
    and a2: "setRowOf (getNodeIndex nodes b) (int n + int idx) (Fin (- 1)) A1 = Inr A2"
    and rest: "(case etype e of
            VoltageSource \<Rightarrow>
              bindE (setColOf (int n + int idx) (getNodeIndex nodes a) (Fin 1) A2) (\<lambda>A3.
              bindE (setColOf (int n + int idx) (getNodeIndex nodes b) (Fin (- 1)) A3) (\<lambda>A4.
              bindE (vecSet z (int n + int idx) (Fin (evalue e))) (\<lambda>z'.
                Inr (A4, z'))))
          | VCVS \<Rightarrow>
              (let gain = evalue e in
               bindE (terminalIdAt e 2) (\<lambda>c.
               bindE (terminalIdAt e 3) (\<lambda>d.
                 let inPosNode = getNodeIndex nodes c; inNegNode = getNodeIndex nodes d in
                 bindE (setColOf (int n + int idx) (getNodeIndex nodes a) (Fin 1) A2) (\<lambda>A3.
                 bindE (setColOf (int n + int idx) (getNodeIndex nodes b) (Fin (- 1)) A3) (\<lambda>A4.
                 bindE (setColOf (int n + int idx) inPosNode (Fin (- gain)) A4) (\<lambda>A5.
                 bindE (setColOf (int n + int idx) inNegNode (Fin gain) A5) (\<lambda>A6.
                   Inr (A6, z))))))))
          | _ \<Rightarrow> Inr (A2, z)) = Inr (A', z')"
    unfolding stampVSource.simps Let_def bindE_eq_Inr by blast
  have k: "keepsRows n A A2"
    using setRowOf_keepsRows [OF a1] setRowOf_keepsRows [OF a2] g
    by (blast intro: keepsRows_trans)
  have ii: "int n + int idx = int (n + idx)" by simp
  have "onlyRow (n + idx) A2 A' \<and> length z' = length z \<and> (\<forall>i. i \<noteq> n + idx \<longrightarrow> z' ! i = z ! i)"
  proof (cases "etype e")
    case VoltageSource
    with rest obtain A3 where
      c1: "setColOf (int (n + idx)) (getNodeIndex nodes a) (Fin 1) A2 = Inr A3"
      and c2: "setColOf (int (n + idx)) (getNodeIndex nodes b) (Fin (- 1)) A3 = Inr A'"
      and v: "vecSet z (int (n + idx)) (Fin (evalue e)) = Inr z'"
      unfolding ii by (auto simp: bindE_eq_Inr)
    from setColOf_spec(1) [OF c1] setColOf_spec(1) [OF c2]
    have "onlyRow (n + idx) A2 A'" by (rule onlyRow_trans)
    with vecSet_Inr [OF v] show ?thesis by simp
  next
    case VCVS
    with rest obtain A3 A4 A5 c d where
      c1: "setColOf (int (n + idx)) (getNodeIndex nodes a) (Fin 1) A2 = Inr A3"
      and c2: "setColOf (int (n + idx)) (getNodeIndex nodes b) (Fin (- 1)) A3 = Inr A4"
      and c3: "setColOf (int (n + idx)) (getNodeIndex nodes c) (Fin (- evalue e)) A4 = Inr A5"
      and c4: "setColOf (int (n + idx)) (getNodeIndex nodes d) (Fin (evalue e)) A5 = Inr A'"
      and zz: "z' = z"
      unfolding ii by (auto simp: bindE_eq_Inr Let_def)
    from setColOf_spec(1) [OF c1] setColOf_spec(1) [OF c2] setColOf_spec(1) [OF c3]
      setColOf_spec(1) [OF c4]
    have "onlyRow (n + idx) A2 A'" by (blast intro: onlyRow_trans)
    with zz show ?thesis by simp
  next
    case Resistor
    with rest show ?thesis by (simp add: onlyRow_refl)
  next
    case CurrentSource
    with rest show ?thesis by (simp add: onlyRow_refl)
  qed
  with k show "\<exists>A2. keepsRows n A A2 \<and> onlyRow (n + idx) A2 A'"
    and "length z' = length z" and "\<forall>i. i \<noteq> n + idx \<longrightarrow> z' ! i = z ! i" by blast+
qed

lemma stampVSource_own:
  assumes s: "stampVSource nodes (int n) (A, z) (idx, e) = Inr (A', z')"
    and g: "\<forall>u. getNodeIndex nodes u \<le> int n"
    and v: "etype e = VoltageSource"
    and ta: "terminalIdAt e 0 = Inr a" and tb: "terminalIdAt e 1 = Inr b"
    and len: "n + idx < length A"
  shows "A' ! (n + idx) = sourceRow (getNodeIndex nodes a) (getNodeIndex nodes b) (A ! (n + idx))"
    and "z' ! (n + idx) = Fin (evalue e)" and "n + idx < length z"
proof -
  have ii: "int n + int idx = int (n + idx)" by simp
  from s v ta tb obtain A1 A2 A3 where
    a1: "setRowOf (getNodeIndex nodes a) (int (n + idx)) (Fin 1) A = Inr A1"
    and a2: "setRowOf (getNodeIndex nodes b) (int (n + idx)) (Fin (- 1)) A1 = Inr A2"
    and c1: "setColOf (int (n + idx)) (getNodeIndex nodes a) (Fin 1) A2 = Inr A3"
    and c2: "setColOf (int (n + idx)) (getNodeIndex nodes b) (Fin (- 1)) A3 = Inr A'"
    and vs: "vecSet z (int (n + idx)) (Fin (evalue e)) = Inr z'"
    unfolding stampVSource.simps Let_def ii by (auto simp: bindE_eq_Inr)
  have "keepsRows n A A2"
    using setRowOf_keepsRows [OF a1] setRowOf_keepsRows [OF a2] g
    by (blast intro: keepsRows_trans)
  with len have r2: "A2 ! (n + idx) = A ! (n + idx)" by (simp add: keepsRows_def)
  from setColOf_spec(2) [OF c1] setColOf_spec(2) [OF c2] r2
  show "A' ! (n + idx) = sourceRow (getNodeIndex nodes a) (getNodeIndex nodes b) (A ! (n + idx))"
    by (simp add: sourceRow_def Let_def)
  from vecSet_Inr [OF vs] show "z' ! (n + idx) = Fin (evalue e)" and "n + idx < length z"
    by (simp_all del: of_nat_add)
qed

lemma stampVSource_fold:
  assumes "foldE (stampVSource nodes (int n)) (A, z) (enumerate k0 vs) = Inr (A', z')"
    and g: "\<forall>u. getNodeIndex nodes u \<le> int n"
    and "n + k0 + length vs \<le> length A"
  shows "length A' = length A \<and> (\<forall>i < length A. length (A' ! i) = length (A ! i))
    \<and> length z' = length z
    \<and> (\<forall>i. n \<le> i \<longrightarrow> i < length A \<longrightarrow> (i < n + k0 \<or> n + k0 + length vs \<le> i)
          \<longrightarrow> A' ! i = A ! i)
    \<and> (\<forall>i. (i < n + k0 \<or> n + k0 + length vs \<le> i) \<longrightarrow> z' ! i = z ! i)
    \<and> (\<forall>j < length vs. etype (vs ! j) = VoltageSource \<longrightarrow>
          (\<forall>a b. terminalIdAt (vs ! j) 0 = Inr a \<longrightarrow> terminalIdAt (vs ! j) 1 = Inr b \<longrightarrow>
             A' ! (n + k0 + j)
               = sourceRow (getNodeIndex nodes a) (getNodeIndex nodes b) (A ! (n + k0 + j))
             \<and> z' ! (n + k0 + j) = Fin (evalue (vs ! j))))"
  using assms(1,3)
proof (induction vs arbitrary: k0 A z)
  case Nil
  then show ?case by simp
next
  case (Cons v vs)
  from Cons.prems(1) obtain A1 z1
    where s: "stampVSource nodes (int n) (A, z) (k0, v) = Inr (A1, z1)"
      and r: "foldE (stampVSource nodes (int n)) (A1, z1) (enumerate (Suc k0) vs) = Inr (A', z')"
    by (auto simp: bindE_eq_Inr)
  from stampVSource_other [OF s g] obtain A2 where k: "keepsRows n A A2"
    and o: "onlyRow (n + k0) A2 A1" and lz: "length z1 = length z"
    and zo: "\<forall>i. i \<noteq> n + k0 \<longrightarrow> z1 ! i = z ! i" by blast
  have la: "length A1 = length A" using k o by (simp add: keepsRows_def onlyRow_def)
  have lr: "\<forall>i < length A. length (A1 ! i) = length (A ! i)"
    using k o by (simp add: keepsRows_def onlyRow_def)
  have ao: "A1 ! i = A ! i" if "n \<le> i" "i < length A" "i \<noteq> n + k0" for i
    using that k o by (simp add: keepsRows_def onlyRow_def)
  from Cons.prems(2) have len1: "n + Suc k0 + length vs \<le> length A1" using la by simp
  note IH = Cons.IH [OF r len1]
  from IH have ih_len: "length A' = length A1"
    and ih_rows: "\<forall>i < length A1. length (A' ! i) = length (A1 ! i)"
    and ih_z: "length z' = length z1"
    and ih_keep: "\<forall>i. n \<le> i \<longrightarrow> i < length A1 \<longrightarrow> (i < n + Suc k0 \<or> n + Suc k0 + length vs \<le> i)
          \<longrightarrow> A' ! i = A1 ! i"
    and ih_zkeep: "\<forall>i. (i < n + Suc k0 \<or> n + Suc k0 + length vs \<le> i) \<longrightarrow> z' ! i = z1 ! i"
    and ih_own: "\<forall>j < length vs. etype (vs ! j) = VoltageSource \<longrightarrow>
          (\<forall>a b. terminalIdAt (vs ! j) 0 = Inr a \<longrightarrow> terminalIdAt (vs ! j) 1 = Inr b \<longrightarrow>
             A' ! (n + Suc k0 + j)
               = sourceRow (getNodeIndex nodes a) (getNodeIndex nodes b) (A1 ! (n + Suc k0 + j))
             \<and> z' ! (n + Suc k0 + j) = Fin (evalue (vs ! j)))"
    by blast+
  have c1: "length A' = length A" using ih_len la by simp
  have c2: "\<forall>i < length A. length (A' ! i) = length (A ! i)" using ih_rows lr la by simp
  have c3: "length z' = length z" using ih_z lz by simp
  have c4: "A' ! i = A ! i"
    if "n \<le> i" "i < length A" "i < n + k0 \<or> n + k0 + length (v # vs) \<le> i" for i
  proof -
    from that have "A' ! i = A1 ! i" using ih_keep la by auto
    moreover from that have "A1 ! i = A ! i" by (intro ao) auto
    ultimately show ?thesis by simp
  qed
  have c5: "z' ! i = z ! i" if "i < n + k0 \<or> n + k0 + length (v # vs) \<le> i" for i
  proof -
    from that have "z' ! i = z1 ! i" using ih_zkeep by auto
    moreover from that have "z1 ! i = z ! i" using zo by auto
    ultimately show ?thesis by simp
  qed
  have c6: "A' ! (n + k0 + j)
               = sourceRow (getNodeIndex nodes a) (getNodeIndex nodes b) (A ! (n + k0 + j))
             \<and> z' ! (n + k0 + j) = Fin (evalue ((v # vs) ! j))"
    if j: "j < length (v # vs)" and vt: "etype ((v # vs) ! j) = VoltageSource"
      and ta: "terminalIdAt ((v # vs) ! j) 0 = Inr a" and tb: "terminalIdAt ((v # vs) ! j) 1 = Inr b"
    for j a b
  proof (cases j)
    case 0
    from Cons.prems(2) have l0: "n + k0 < length A" by simp
    from vt ta tb 0 have "etype v = VoltageSource" "terminalIdAt v 0 = Inr a"
      "terminalIdAt v 1 = Inr b" by simp_all
    note own = stampVSource_own [OF s g this l0]
    have "A' ! (n + k0) = A1 ! (n + k0)" using ih_keep l0 la by simp
    moreover have "z' ! (n + k0) = z1 ! (n + k0)" using ih_zkeep by simp
    ultimately show ?thesis using own 0 by simp
  next
    case (Suc j')
    with j have j': "j' < length vs" by simp
    from vt ta tb Suc have "etype (vs ! j') = VoltageSource" "terminalIdAt (vs ! j') 0 = Inr a"
      "terminalIdAt (vs ! j') 1 = Inr b" by simp_all
    with ih_own j' have "A' ! (n + Suc k0 + j')
               = sourceRow (getNodeIndex nodes a) (getNodeIndex nodes b) (A1 ! (n + Suc k0 + j'))
             \<and> z' ! (n + Suc k0 + j') = Fin (evalue (vs ! j'))" by blast
    moreover have "A1 ! (n + Suc k0 + j') = A ! (n + Suc k0 + j')"
      using Cons.prems(2) j' by (intro ao) auto
    ultimately show ?thesis using Suc by simp
  qed
  from c1 c2 c3 c4 c5 c6 show ?case by blast
qed

lemma assemble_source_row:
  assumes asm: "assemble nodes elements = Inr (A, z)"
    and n: "0 \<le> numNodesOf nodes"
    and g: "\<forall>u. getNodeIndex nodes u \<le> numNodesOf nodes"
    and k: "k < length (vSourcesOf elements)"
    and v: "etype (vSourcesOf elements ! k) = VoltageSource"
    and ta: "terminalIdAt (vSourcesOf elements ! k) 0 = Inr a"
    and tb: "terminalIdAt (vSourcesOf elements ! k) 1 = Inr b"
  shows "length A = nat (numNodesOf nodes) + length (vSourcesOf elements)"
    and "A ! (nat (numNodesOf nodes) + k)
       = sourceRow (getNodeIndex nodes a) (getNodeIndex nodes b)
           (replicate (nat (numNodesOf nodes) + length (vSourcesOf elements)) (Fin 0))"
    and "z ! (nat (numNodesOf nodes) + k) = Fin (evalue (vSourcesOf elements ! k))"
proof -
  define n where "n = nat (numNodesOf nodes)"
  define m where "m = length (vSourcesOf elements)"
  have nn: "numNodesOf nodes = int n" using n by (simp add: n_def)
  have sz: "nat (numNodesOf nodes + int (length (vSourcesOf elements))) = n + m"
    using n by (simp add: n_def m_def nat_add_distrib)
  from asm obtain A1 z1 A2 where
    f1: "foldE (stampElement nodes) (zerosMat (int n + int m) (int n + int m),
           zerosVec (int n + int m)) elements = Inr (A1, z1)"
    and f2: "foldE (\<lambda>A i. matAdd A (int i) (int i) GMIN) A1 [0..<n] = Inr A2"
    and f3: "foldE (stampVSource nodes (int n)) (A2, z1) (enumerate 0 (vSourcesOf elements))
           = Inr (A, z)"
    unfolding assemble_def Let_def nn m_def [symmetric]
    by (auto simp: bindE_eq_Inr split: prod.splits)
  let ?A0 = "zerosMat (int n + int m) (int n + int m)"
  have g': "\<forall>u. getNodeIndex nodes u \<le> int n" using g nn by simp
  from stampElement_fold_keeps [OF f1 g'] have k1: "keepsRows n ?A0 A1" by simp
  from gmin_fold_keepsRows [OF f2] have k2: "keepsRows n A1 A2" by simp
  from k1 k2 have k12: "keepsRows n ?A0 A2" by (rule keepsRows_trans)
  have l0: "length ?A0 = n + m" by (simp add: zerosMat_def nat_add_distrib)
  have l2: "length A2 = n + m" using k12 l0 by (simp add: keepsRows_def)
  have len: "n + 0 + length (vSourcesOf elements) \<le> length A2" using l2 by (simp add: m_def)
  note F = stampVSource_fold [OF f3 g' len]
  from F l2 show "length A = nat (numNodesOf nodes) + length (vSourcesOf elements)"
    by (simp add: n_def m_def)
  from F k v ta tb
  have row: "A ! (n + k) = sourceRow (getNodeIndex nodes a) (getNodeIndex nodes b) (A2 ! (n + k))"
    and zk: "z ! (n + k) = Fin (evalue (vSourcesOf elements ! k))"
    by auto
  have "n + k < n + m" using k by (simp add: m_def)
  then have "A2 ! (n + k) = ?A0 ! (n + k)" using k12 l0 by (simp add: keepsRows_def)
  also have "\<dots> = replicate (n + m) (Fin 0)"
    using \<open>n + k < n + m\<close> by (simp add: zerosMat_def nat_add_distrib)
  finally have "A2 ! (n + k) = replicate (n + m) (Fin 0)" .
  with row show "A ! (nat (numNodesOf nodes) + k)
       = sourceRow (getNodeIndex nodes a) (getNodeIndex nodes b)
           (replicate (nat (numNodesOf nodes) + length (vSourcesOf elements)) (Fin 0))"
    by (simp add: n_def m_def)
  from zk show "z ! (nat (numNodesOf nodes) + k) = Fin (evalue (vSourcesOf elements ! k))"
    by (simp add: n_def)
qed

subsection \<open>The product of a source row with a solution\<close>

lemma plus_number_Fin: "a + b = Fin v \<Longrightarrow> \<exists>x y. a = Fin x \<and> b = Fin y \<and> v = x + y"
  by (cases a; cases b) (simp_all add: plus_number_def)

lemma times_number_Fin: "a * b = Fin v \<Longrightarrow> \<exists>x y. a = Fin x \<and> b = Fin y \<and> v = x * y"
  by (cases a; cases b) (simp_all add: times_number_def)

lemma dotN_finite:
  assumes "dotN row x = Fin v" and "length row = length x"
  shows "\<exists>rr xr. row = map Fin rr \<and> x = map Fin xr"
  using assms
proof (induction row x arbitrary: v rule: list_induct2')
  case 1
  then show ?case by simp
next
  case (2 a as)
  then show ?case by simp
next
  case (3 b bs)
  then show ?case by simp
next
  case (4 a as b bs)
  from 4(2) have "a * b + dotN as bs = Fin v" by simp
  from plus_number_Fin [OF this] obtain u w where ab: "a * b = Fin u" and r: "dotN as bs = Fin w"
    by blast
  from times_number_Fin [OF ab] obtain a' b' where a: "a = Fin a'" and b: "b = Fin b'" by blast
  from 4(3) have "length as = length bs" by simp
  from 4(1) [OF r this] obtain rr xr where "as = map Fin rr" "bs = map Fin xr" by blast
  with a b have "a # as = map Fin (a' # rr) \<and> b # bs = map Fin (b' # xr)" by simp
  then show ?case by (intro exI)
qed

lemma dotN_reals: "dotN (map Fin rr) (map Fin xr) = Fin (\<Sum>(a, b)\<leftarrow>zip rr xr. a * b)"
proof (induction rr xr rule: list_induct2')
  case (4 a as b bs)
  then show ?case by (simp add: plus_number_def times_number_def)
qed simp_all

lemma sum_zip_update:
  fixes r x :: "real list"
  assumes "i < length r" and "length r = length x"
  shows "(\<Sum>(a, b)\<leftarrow>zip (r[i := c]) x. a * b) = (\<Sum>(a, b)\<leftarrow>zip r x. a * b) + (c - r ! i) * x ! i"
  using assms
proof (induction r arbitrary: i x)
  case Nil
  then show ?case by simp
next
  case (Cons a r)
  then obtain b xs where x: "x = b # xs" by (cases x) auto
  show ?case
  proof (cases i)
    case 0
    then show ?thesis using x by (simp add: algebra_simps)
  next
    case (Suc j)
    with Cons.prems x have "j < length r" "length r = length xs" by simp_all
    from Cons.IH [OF this] Suc x show ?thesis by simp
  qed
qed

lemma sum_zip_zero:
  fixes x :: "real list"
  shows "(\<Sum>(a, b)\<leftarrow>zip (replicate k 0) x. a * b) = 0"
proof (induction k arbitrary: x)
  case 0
  show ?case by simp
next
  case (Suc k)
  then show ?case by (cases x) simp_all
qed

lemma sourceRow_dot:
  assumes p: "0 \<le> p" "p \<le> int (length xr)" and q: "0 \<le> q" "q \<le> int (length xr)"
    and ne: "p \<noteq> q"
  shows "dotN (sourceRow p q (replicate (length xr) (Fin 0))) (map Fin xr)
     = Fin (voltAt xr p - voltAt xr q)"
proof -
  let ?S = "length xr"
  let ?z = "replicate ?S (0::real)"
  let ?r1 = "if p > 0 then ?z[nat (p - 1) := 1] else ?z"
  let ?r2 = "if q > 0 then ?r1[nat (q - 1) := - 1] else ?r1"
  have row: "sourceRow p q (replicate ?S (Fin 0)) = map Fin ?r2"
    by (simp add: sourceRow_def Let_def map_update)
  have s1: "(\<Sum>(a, b)\<leftarrow>zip ?r1 xr. a * b) = (if p > 0 then xr ! nat (p - 1) else 0)"
  proof (cases "p > 0")
    case True
    with p have lt: "nat (p - 1) < length ?z" by simp
    then have "?z ! nat (p - 1) = 0" by simp
    with sum_zip_update [OF lt, of xr 1] True show ?thesis by (simp add: sum_zip_zero)
  next
    case False
    then show ?thesis by (simp add: sum_zip_zero)
  qed
  have s2: "(\<Sum>(a, b)\<leftarrow>zip ?r2 xr. a * b)
      = (if p > 0 then xr ! nat (p - 1) else 0) - (if q > 0 then xr ! nat (q - 1) else 0)"
  proof (cases "q > 0")
    case True
    with q have lt: "nat (q - 1) < length ?r1" by simp
    have len: "length ?r1 = length xr" by simp
    have at: "?r1 ! nat (q - 1) = 0"
    proof (cases "p > 0")
      case True
      with \<open>q > 0\<close> ne have "nat (p - 1) \<noteq> nat (q - 1)" by simp
      with True lt show ?thesis by simp
    next
      case False
      with lt show ?thesis by simp
    qed
    from sum_zip_update [OF lt len, of "- 1"] at s1 True show ?thesis by simp
  next
    case False
    with s1 show ?thesis by simp
  qed
  show ?thesis unfolding row dotN_reals s2 by (simp add: voltAt_def)
qed

section \<open>The right-hand side of the current sources\<close>

lemma vecAdd_nth:
  assumes "vecAdd z j v = Inr z'" and "i < length z"
  shows "z' ! i = (if int i = j then z ! i + v else z ! i)" and "length z' = length z"
proof -
  from assms(1) have s: "vecSet z j (z ! nat j + v) = Inr z'"
    by (auto simp: vecAdd_def vecGet_def bindE_eq_Inr split: if_splits)
  note u = vecSet_Inr [OF s]
  show "length z' = length z" using u(1) by simp
  show "z' ! i = (if int i = j then z ! i + v else z ! i)"
  proof (cases "int i = j")
    case True
    then have "nat j = i" by simp
    with u(1) assms(2) True show ?thesis by simp
  next
    case False
    with u(2) have "nat j \<noteq> i" by auto
    with u(1) False show ?thesis by simp
  qed
qed

lemma vecSub_nth:
  assumes "vecSub z j v = Inr z'" and "i < length z"
  shows "z' ! i = (if int i = j then z ! i - v else z ! i)" and "length z' = length z"
proof -
  from assms(1) have s: "vecSet z j (z ! nat j - v) = Inr z'"
    by (auto simp: vecSub_def vecGet_def bindE_eq_Inr split: if_splits)
  note u = vecSet_Inr [OF s]
  show "length z' = length z" using u(1) by simp
  show "z' ! i = (if int i = j then z ! i - v else z ! i)"
  proof (cases "int i = j")
    case True
    then have "nat j = i" by simp
    with u(1) assms(2) True show ?thesis by simp
  next
    case False
    with u(2) have "nat j \<noteq> i" by auto
    with u(1) False show ?thesis by simp
  qed
qed

lemma stampCurrentSource_nth:
  assumes s: "stampCurrentSource (Fin v) tA tB z = Inr z'" and i: "i < length z"
    and c: "z ! i = Fin c"
  shows "z' ! i = Fin (c + ((if tA = int i + 1 then v else 0) - (if tB = int i + 1 then v else 0)))"
    and "length z' = length z"
proof -
  from s obtain z1 where a1: "(if tA > 0 then vecAdd z (tA - 1) (Fin v) else Inr z) = Inr z1"
    and a2: "(if tB > 0 then vecSub z1 (tB - 1) (Fin v) else Inr z1) = Inr z'"
    unfolding stampCurrentSource_def bindE_eq_Inr by blast
  have z1: "z1 ! i = Fin (c + (if tA = int i + 1 then v else 0)) \<and> length z1 = length z"
  proof (cases "tA > 0")
    case True
    with a1 have "vecAdd z (tA - 1) (Fin v) = Inr z1" by simp
    from vecAdd_nth [OF this i] c show ?thesis by (auto simp: plus_number_def)
  next
    case False
    with a1 c show ?thesis by auto
  qed
  then have i1: "i < length z1" using i by simp
  have "z' ! i = Fin (c + (if tA = int i + 1 then v else 0) - (if tB = int i + 1 then v else 0))
      \<and> length z' = length z1"
  proof (cases "tB > 0")
    case True
    with a2 have "vecSub z1 (tB - 1) (Fin v) = Inr z'" by simp
    from vecSub_nth [OF this i1] z1 show ?thesis by (auto simp: minus_number_def)
  next
    case False
    with a2 z1 show ?thesis by auto
  qed
  with z1 show "z' ! i
      = Fin (c + ((if tA = int i + 1 then v else 0) - (if tB = int i + 1 then v else 0)))"
    and "length z' = length z" by (simp_all add: algebra_simps)
qed

lemma stampElement_nth:
  assumes s: "stampElement nodes (A, z) e = Inr (A', z')" and i: "i < length z"
    and c: "z ! i = Fin c"
  shows "z' ! i = Fin (c + injectedBy nodes (int i + 1) e) \<and> length z' = length z"
proof (cases "etype e = CurrentSource")
  case True
  with s obtain a b where ta: "terminalIdAt e 0 = Inr a" and tb: "terminalIdAt e 1 = Inr b"
    and st: "stampCurrentSource (Fin (evalue e)) (getNodeIndex nodes a) (getNodeIndex nodes b) z
        = Inr z'"
    by (auto simp: bindE_eq_Inr)
  from ta tb have ab: "a = tid (terminals e ! 0)" "b = tid (terminals e ! 1)"
    by (auto simp: terminalIdAt_def split: if_splits)
  from stampCurrentSource_nth [OF st i c] True ab show ?thesis
    by (simp add: injectedBy_def)
next
  case False
  with s have "z' = z" by (cases "etype e") (auto simp: bindE_eq_Inr Let_def)
  with False c show ?thesis by (simp add: injectedBy_def)
qed

lemma stampElement_fold_nth:
  assumes "foldE (stampElement nodes) (A, z) es = Inr (A', z')" and "i < length z"
    and "z ! i = Fin c"
  shows "z' ! i = Fin (c + injected nodes es (int i + 1)) \<and> length z' = length z"
  using assms
proof (induction es arbitrary: A z c)
  case Nil
  then show ?case by (simp add: injected_def)
next
  case (Cons e es)
  from Cons.prems(1) obtain A1 z1 where s: "stampElement nodes (A, z) e = Inr (A1, z1)"
    and r: "foldE (stampElement nodes) (A1, z1) es = Inr (A', z')"
    by (auto simp: bindE_eq_Inr)
  from stampElement_nth [OF s Cons.prems(2,3)]
  have z1: "z1 ! i = Fin (c + injectedBy nodes (int i + 1) e)" and l1: "length z1 = length z"
    by simp_all
  from Cons.prems(2) l1 have "i < length z1" by simp
  from Cons.IH [OF r this z1] l1 show ?case by (simp add: injected_def algebra_simps)
qed

lemma assemble_rhs:
  assumes asm: "assemble nodes elements = Inr (A, z)"
    and n: "0 \<le> numNodesOf nodes"
    and g: "\<forall>u. getNodeIndex nodes u \<le> numNodesOf nodes"
    and i: "i < nat (numNodesOf nodes)"
  shows "z ! i = Fin (injected nodes elements (int i + 1))"
proof -
  define n where "n = nat (numNodesOf nodes)"
  define m where "m = length (vSourcesOf elements)"
  have nn: "numNodesOf nodes = int n" using n by (simp add: n_def)
  from asm obtain A1 z1 A2 where
    f1: "foldE (stampElement nodes) (zerosMat (int n + int m) (int n + int m),
           zerosVec (int n + int m)) elements = Inr (A1, z1)"
    and f2: "foldE (\<lambda>A i. matAdd A (int i) (int i) GMIN) A1 [0..<n] = Inr A2"
    and f3: "foldE (stampVSource nodes (int n)) (A2, z1) (enumerate 0 (vSourcesOf elements))
           = Inr (A, z)"
    unfolding assemble_def Let_def nn m_def [symmetric]
    by (auto simp: bindE_eq_Inr split: prod.splits)
  let ?A0 = "zerosMat (int n + int m) (int n + int m)"
  let ?z0 = "zerosVec (int n + int m)"
  have g': "\<forall>u. getNodeIndex nodes u \<le> int n" using g nn by simp
  have "i < n" using i by (simp add: n_def)
  then have i0: "i < length ?z0" "?z0 ! i = Fin 0"
    by (simp_all add: zerosVec_def nat_add_distrib)
  from stampElement_fold_nth [OF f1 i0]
  have z1: "z1 ! i = Fin (injected nodes elements (int i + 1))" by simp
  from stampElement_fold_keeps [OF f1 g'] have k1: "keepsRows n ?A0 A1" by simp
  from gmin_fold_keepsRows [OF f2] have k2: "keepsRows n A1 A2" by simp
  have "length A2 = n + m"
    using k1 k2 by (simp add: keepsRows_def zerosMat_def nat_add_distrib)
  then have len: "n + 0 + length (vSourcesOf elements) \<le> length A2" by (simp add: m_def)
  from stampVSource_fold [OF f3 g' len] \<open>i < n\<close> have "z ! i = z1 ! i" by simp
  with z1 show ?thesis by simp
qed

section \<open>Polarity of the sources\<close>

lemma deriveResult_voltage:
  assumes dr: "deriveResult nodes elements x = Inr r" and n: "0 \<le> numNodesOf nodes"
    and p: "0 \<le> p" "p \<le> numNodesOf nodes"
  shows "voltageOf (nodeVoltages r) p = (if p > 0 then x ! nat (p - 1) else Fin 0)"
    and "p > 0 \<Longrightarrow> nat (p - 1) < length x"
proof -
  from dr obtain nv where ev: "extractVoltages (numNodesOf nodes) x = Inr nv"
    and r: "nodeVoltages r = nv"
    by (auto simp: deriveResult_def Let_def bindE_eq_Inr)
  note E = extractVoltages_Inr [OF ev n]
  show "voltageOf (nodeVoltages r) p = (if p > 0 then x ! nat (p - 1) else Fin 0)"
  proof (cases "p > 0")
    case True
    with E(3) [of p] p r show ?thesis by (simp add: voltageOf_def)
  next
    case False
    with p have "p = 0" by simp
    with E(1) r show ?thesis by (simp add: voltageOf_def)
  qed
  show "nat (p - 1) < length x" if "p > 0" using E(3) [of p] that p by simp
qed

lemma extractNodes_index_bound:
  assumes "extractNodes elements wires = Some nodes"
  shows "getNodeIndex nodes u \<le> numNodesOf nodes"
proof -
  from extractNodes_ids [OF assms] have "\<forall>i < length nodes. nid (nodes ! i) = int i" by simp
  from getNodeIndex_range [OF this, of u] show ?thesis by (simp add: numNodesOf_def)
qed

lemma terminalIdAt_member:
  assumes "terminalIdAt e k = Inr a"
  shows "\<exists>t \<in> set (terminals e). tid t = a"
  using assms by (auto simp: terminalIdAt_def split: if_splits)

lemma solves_row:
  assumes "solves A x z" and "i < length A"
  shows "dotN (A ! i) x = z ! i" and "length (A ! i) = length x" and "length x = length A"
proof -
  from assms(1) have m: "map (\<lambda>row. dotN row x) A = z"
    and l: "list_all (\<lambda>row. length row = length x) A" and lx: "length x = length A"
    unfolding solves_def by blast+
  from m assms(2) show "dotN (A ! i) x = z ! i" by (metis nth_map)
  from l assms(2) show "length (A ! i) = length x" by (simp add: list_all_length)
  from lx show "length x = length A" .
qed

lemma voltage_source_row:
  assumes ex: "extractNodes elements wires = Some nodes"
    and n: "0 < numNodesOf nodes"
    and asm: "assemble nodes elements = Inr (A, z)"
    and sol: "solves A x z"
    and dr: "deriveResult nodes elements x = Inr r"
    and e: "e \<in> set elements" and v: "etype e = VoltageSource"
    and ta: "terminalIdAt e 0 = Inr a" and tb: "terminalIdAt e 1 = Inr b"
    and ne: "getNodeIndex nodes a \<noteq> getNodeIndex nodes b"
  shows "voltageOf (nodeVoltages r) (getNodeIndex nodes a)
       - voltageOf (nodeVoltages r) (getNodeIndex nodes b) = Fin (evalue e)"
proof -
  let ?p = "getNodeIndex nodes a" and ?q = "getNodeIndex nodes b"
  let ?n = "nat (numNodesOf nodes)" and ?m = "length (vSourcesOf elements)"
  from n have n0: "0 \<le> numNodesOf nodes" by simp
  have g: "\<forall>u. getNodeIndex nodes u \<le> numNodesOf nodes"
    using extractNodes_index_bound [OF ex] by simp
  from e v have "e \<in> set (vSourcesOf elements)" by (simp add: vSourcesOf_def)
  then obtain k where k: "k < ?m" and ek: "vSourcesOf elements ! k = e"
    by (auto simp: in_set_conv_nth)
  from terminalIdAt_member [OF ta] obtain t0 where "t0 \<in> set (terminals e)" "tid t0 = a" by blast
  with extractNodes_resolves [OF ex e] have p0: "0 \<le> ?p" by blast
  from terminalIdAt_member [OF tb] obtain t1 where "t1 \<in> set (terminals e)" "tid t1 = b" by blast
  with extractNodes_resolves [OF ex e] have q0: "0 \<le> ?q" by blast
  from g have pn: "?p \<le> numNodesOf nodes" and qn: "?q \<le> numNodesOf nodes" by simp_all
  note R = assemble_source_row [OF asm n0 g k v [folded ek] ta [folded ek] tb [folded ek]]
  have lA: "length A = ?n + ?m" by (rule R(1))
  have kA: "?n + k < length A" using k lA by simp
  from solves_row [OF sol kA] have d: "dotN (A ! (?n + k)) x = z ! (?n + k)"
    and lr: "length (A ! (?n + k)) = length x" and lx: "length x = length A" by simp_all
  from d R(3) ek have dv: "dotN (A ! (?n + k)) x = Fin (evalue e)" by simp
  from dotN_finite [OF dv lr] obtain xr where x: "x = map Fin xr" by blast
  have lxr: "length xr = ?n + ?m" using x lx lA by simp
  have pl: "?p \<le> int (length xr)" and ql: "?q \<le> int (length xr)"
    using pn qn n0 lxr by simp_all
  from sourceRow_dot [OF p0 pl q0 ql ne] R(2) lxr x dv
  have V: "voltAt xr ?p - voltAt xr ?q = evalue e" by simp
  have vp: "voltageOf (nodeVoltages r) ?p = Fin (voltAt xr ?p)"
  proof (cases "?p > 0")
    case True
    from deriveResult_voltage [OF dr n0 p0 pn] True x show ?thesis by (simp add: voltAt_def)
  next
    case False
    from deriveResult_voltage(1) [OF dr n0 p0 pn] False show ?thesis by (simp add: voltAt_def)
  qed
  have vq: "voltageOf (nodeVoltages r) ?q = Fin (voltAt xr ?q)"
  proof (cases "?q > 0")
    case True
    from deriveResult_voltage [OF dr n0 q0 qn] True x show ?thesis by (simp add: voltAt_def)
  next
    case False
    from deriveResult_voltage(1) [OF dr n0 q0 qn] False show ?thesis by (simp add: voltAt_def)
  qed
  from V show ?thesis unfolding vp vq by (simp add: minus_number_def)
qed

text \<open>
  Two independent voltage sources on the same pair of nodes leave the same row in their two
  equations. When their values differ no vector satisfies both, so a linear solver that
  only returns solutions of the system must fail, and \<open>solveCircuit\<close> returns the empty
  result.
\<close>

lemma contradictory_sources_unsolvable:
  assumes ex: "extractNodes elements wires = Some nodes" and n: "0 \<le> numNodesOf nodes"
    and asm: "assemble nodes elements = Inr (A, z)"
    and k1: "k1 < length (vSourcesOf elements)" and k2: "k2 < length (vSourcesOf elements)"
    and v1: "etype (vSourcesOf elements ! k1) = VoltageSource"
    and v2: "etype (vSourcesOf elements ! k2) = VoltageSource"
    and t1: "terminalIdAt (vSourcesOf elements ! k1) 0 = Inr a1"
      "terminalIdAt (vSourcesOf elements ! k1) 1 = Inr b1"
    and t2: "terminalIdAt (vSourcesOf elements ! k2) 0 = Inr a2"
      "terminalIdAt (vSourcesOf elements ! k2) 1 = Inr b2"
    and same: "getNodeIndex nodes a1 = getNodeIndex nodes a2"
      "getNodeIndex nodes b1 = getNodeIndex nodes b2"
    and diff: "evalue (vSourcesOf elements ! k1) \<noteq> evalue (vSourcesOf elements ! k2)"
  shows "\<not> solves A x z"
proof
  assume sol: "solves A x z"
  let ?n = "nat (numNodesOf nodes)"
  have g: "\<forall>u. getNodeIndex nodes u \<le> numNodesOf nodes"
    using extractNodes_index_bound [OF ex] by simp
  note R1 = assemble_source_row [OF asm n g k1 v1 t1]
  note R2 = assemble_source_row [OF asm n g k2 v2 t2]
  from R1(2) R2(2) same have rows: "A ! (?n + k1) = A ! (?n + k2)" by simp
  have "?n + k1 < length A" "?n + k2 < length A" using R1(1) k1 k2 by simp_all
  from solves_row(1) [OF sol this(1)] solves_row(1) [OF sol this(2)] rows
  have "z ! (?n + k1) = z ! (?n + k2)" by simp
  with R1(3) R2(3) diff show False by simp
qed

lemma contradictory_sources_empty:
  assumes "solveCircuit linsolve elements wires = Some (Inr r)"
    and sound: "\<forall>A z x. linsolve A z = Some x \<longrightarrow> solves A x z"
    and k1: "k1 < length (vSourcesOf elements)" and k2: "k2 < length (vSourcesOf elements)"
    and v1: "etype (vSourcesOf elements ! k1) = VoltageSource"
    and v2: "etype (vSourcesOf elements ! k2) = VoltageSource"
    and t1: "terminalIdAt (vSourcesOf elements ! k1) 0 = Inr a1"
      "terminalIdAt (vSourcesOf elements ! k1) 1 = Inr b1"
    and t2: "terminalIdAt (vSourcesOf elements ! k2) 0 = Inr a2"
      "terminalIdAt (vSourcesOf elements ! k2) 1 = Inr b2"
    and same: "\<forall>nodes. extractNodes elements wires = Some nodes \<longrightarrow>
        getNodeIndex nodes a1 = getNodeIndex nodes a2
        \<and> getNodeIndex nodes b1 = getNodeIndex nodes b2"
    and diff: "evalue (vSourcesOf elements ! k1) \<noteq> evalue (vSourcesOf elements ! k2)"
  shows "r = emptyResult"
proof (rule ccontr)
  assume "r \<noteq> emptyResult"
  from solveCircuit_solved [OF assms(1) this] obtain nodes A z x
    where ex: "extractNodes elements wires = Some nodes" and n: "0 < numNodesOf nodes"
      and asm: "assemble nodes elements = Inr (A, z)" and ls: "linsolve A z = Some x" by blast
  from same ex have s: "getNodeIndex nodes a1 = getNodeIndex nodes a2"
    "getNodeIndex nodes b1 = getNodeIndex nodes b2" by simp_all
  from n have n0: "0 \<le> numNodesOf nodes" by simp
  from contradictory_sources_unsolvable [OF ex n0 asm k1 k2 v1 v2 t1 t2 s diff]
  have "\<not> solves A x z" .
  with sound ls show False by blast
qed

lemma exLoop_solves: "solves exLoopA exLoopX exLoopZ"
  by (simp add: solves_def exLoopA_def exLoopX_def exLoopZ_def plus_number_def times_number_def)

text \<open>
  Claim C6, as stated: terminal 1 of a voltage source is its positive terminal, so that a
  solved circuit has \<open>V(node of terminals[1]) - V(node of terminals[0]) = V\<close>. This fails:
  in the loop the 5 V source \<open>v1\<close> has terminal 0 on ground and terminal 1 on node 1, the
  system is solved, and the voltage of node 1 is -5, so the difference is -5 and not 5.
  Likewise the 2 A source \<open>i1\<close> has terminal 1 on node 1, and the right-hand side of node 1
  is -2: the current leaves the node of terminal 1.
\<close>

theorem source_polarity_counterexample:
  "solveCircuit exactSolve [exV1, exR1] exLoop = Some (Inr exLoopResult)
   \<and> exLoopResult \<noteq> emptyResult \<and> solves exLoopA exLoopX exLoopZ
   \<and> etype exV1 = VoltageSource \<and> evalue exV1 = 5
   \<and> terminalIdAt exV1 0 = Inr ''a'' \<and> terminalIdAt exV1 1 = Inr ''b''
   \<and> voltageOf (nodeVoltages exLoopResult) (getNodeIndex exLoopNodes ''b'')
       - voltageOf (nodeVoltages exLoopResult) (getNodeIndex exLoopNodes ''a'') = Fin (- 5)
   \<and> Fin (- 5) \<noteq> Fin (evalue exV1)
   \<and> assemble exDriveNodes [exI1, exR1] = Inr (exDriveA, exDriveZ)
   \<and> etype exI1 = CurrentSource \<and> evalue exI1 = 2 \<and> terminalIdAt exI1 1 = Inr ''h''
   \<and> getNodeIndex exDriveNodes ''h'' = 1 \<and> exDriveZ ! 0 = Fin (- 2)"
proof -
  have "etype exI1 = CurrentSource" "evalue exI1 = 2" "terminalIdAt exI1 1 = Inr ''h''"
    "getNodeIndex exDriveNodes ''h'' = 1" "exDriveZ ! 0 = Fin (- 2)"
    by (simp_all add: exI1_def terminalIdAt_def exTg_def exTh_def getNodeIndex_def
        exDriveNodes_def exTc_def exTd_def exDriveZ_def)
  moreover note exDrive_assemble
  moreover have "etype exV1 = VoltageSource" "evalue exV1 = 5" by (simp_all add: exV1_def)
  moreover have "terminalIdAt exV1 0 = Inr ''a''" "terminalIdAt exV1 1 = Inr ''b''"
    by (simp_all add: terminalIdAt_def exV1_def exTa_def exTb_def)
  moreover have "voltageOf (nodeVoltages exLoopResult) (getNodeIndex exLoopNodes ''b'')
       - voltageOf (nodeVoltages exLoopResult) (getNodeIndex exLoopNodes ''a'') = Fin (- 5)"
    by (simp add: voltageOf_def exLoopResult_def getNodeIndex_def exLoopNodes_def example_defs
        minus_number_def)
  moreover have "Fin (- 5) \<noteq> Fin (evalue exV1)" by (simp add: exV1_def)
  ultimately show ?thesis using exLoop_result exLoopResult_nonempty exLoop_solves by blast
qed

text \<open>
  Claim C6, amended. For polarity, terminal 0 of a two-terminal source is the positive
  terminal and terminal 1 the negative one. In a solved circuit (the solver's vector \<open>x\<close>
  satisfies \<open>A x = z\<close> for the assembled system), an independent voltage source of value \<open>V\<close>
  whose terminals lie on different nodes has
  \<open>V(node of terminals[0]) - V(node of terminals[1]) = V\<close>. A current source of value \<open>I\<close> adds
  \<open>I\<close> to the right-hand side at the node of \<open>terminals[0]\<close> and subtracts it at the node of
  \<open>terminals[1]\<close>: the entry of \<open>z\<close> for a non-ground node is the sum of the currents that enter
  it at a terminal 0 minus those that leave it at a terminal 1.
\<close>

theorem source_polarity:
  assumes "solveCircuit linsolve elements wires = Some (Inr r)" and "r \<noteq> emptyResult"
    and "extractNodes elements wires = Some nodes"
    and "assemble nodes elements = Inr (A, z)"
    and "linsolve A z = Some x" and "solves A x z"
  shows "(\<forall>e \<in> set elements. \<forall>a b.
            etype e = VoltageSource \<longrightarrow> terminalIdAt e 0 = Inr a \<longrightarrow> terminalIdAt e 1 = Inr b
            \<longrightarrow> getNodeIndex nodes a \<noteq> getNodeIndex nodes b
            \<longrightarrow> voltageOf (nodeVoltages r) (getNodeIndex nodes a)
                 - voltageOf (nodeVoltages r) (getNodeIndex nodes b) = Fin (evalue e))
     \<and> (\<forall>i < nat (numNodesOf nodes). z ! i = Fin (injected nodes elements (int i + 1)))"
proof -
  from solveCircuit_solved [OF assms(1,2)] assms(3,4,5)
  have n: "0 < numNodesOf nodes" and dr: "deriveResult nodes elements x = Inr r" by auto
  have g: "\<forall>u. getNodeIndex nodes u \<le> numNodesOf nodes"
    using extractNodes_index_bound [OF assms(3)] by simp
  from n have n0: "0 \<le> numNodesOf nodes" by simp
  have "voltageOf (nodeVoltages r) (getNodeIndex nodes a)
        - voltageOf (nodeVoltages r) (getNodeIndex nodes b) = Fin (evalue e)"
    if "e \<in> set elements" "etype e = VoltageSource" "terminalIdAt e 0 = Inr a"
      "terminalIdAt e 1 = Inr b" "getNodeIndex nodes a \<noteq> getNodeIndex nodes b" for e a b
    using voltage_source_row [OF assms(3) n assms(4,6) dr that] .
  moreover have "z ! i = Fin (injected nodes elements (int i + 1))"
    if "i < nat (numNodesOf nodes)" for i
    using assemble_rhs [OF assms(4) n0 g that] .
  ultimately show ?thesis by blast
qed

theorem source_polarity_witness:
  "solveCircuit exactSolve [exV1, exR1] exLoop = Some (Inr exLoopResult)
   \<and> exLoopResult \<noteq> emptyResult \<and> solves exLoopA exLoopX exLoopZ
   \<and> exV1 \<in> set [exV1, exR1] \<and> etype exV1 = VoltageSource
   \<and> getNodeIndex exLoopNodes ''a'' \<noteq> getNodeIndex exLoopNodes ''b''
   \<and> voltageOf (nodeVoltages exLoopResult) (getNodeIndex exLoopNodes ''a'')
       - voltageOf (nodeVoltages exLoopResult) (getNodeIndex exLoopNodes ''b'') = Fin (evalue exV1)
   \<and> solveCircuit exactSolve [exI1, exR1] exDrive = Some (Inr exDriveResult)
   \<and> exDriveResult \<noteq> emptyResult \<and> solves exDriveA exDriveX exDriveZ
   \<and> 0 < nat (numNodesOf exDriveNodes)
   \<and> exDriveZ ! 0 = Fin (injected exDriveNodes [exI1, exR1] 1)
   \<and> injected exDriveNodes [exI1, exR1] 1 = - 2"
proof -
  have h: "exV1 \<in> set [exV1, exR1]" "etype exV1 = VoltageSource"
    "terminalIdAt exV1 0 = Inr ''a''" "terminalIdAt exV1 1 = Inr ''b''"
    by (simp_all add: terminalIdAt_def exV1_def exTa_def exTb_def)
  have ne: "getNodeIndex exLoopNodes ''a'' \<noteq> getNodeIndex exLoopNodes ''b''"
    by (simp add: getNodeIndex_def exLoopNodes_def example_defs)
  have pos: "0 < nat (numNodesOf exDriveNodes)" by (simp add: exDrive_numNodes)
  from source_polarity [OF exLoop_result exLoopResult_nonempty exLoop_nodes exLoop_assemble
      exLoop_solve exLoop_solves]
  have vs: "\<forall>e \<in> set [exV1, exR1]. \<forall>a b.
            etype e = VoltageSource \<longrightarrow> terminalIdAt e 0 = Inr a \<longrightarrow> terminalIdAt e 1 = Inr b
            \<longrightarrow> getNodeIndex exLoopNodes a \<noteq> getNodeIndex exLoopNodes b
            \<longrightarrow> voltageOf (nodeVoltages exLoopResult) (getNodeIndex exLoopNodes a)
                 - voltageOf (nodeVoltages exLoopResult) (getNodeIndex exLoopNodes b)
                 = Fin (evalue e)"
    by blast
  from source_polarity [OF exDrive_result exDriveResult_nonempty exDrive_nodes exDrive_assemble
      exDrive_solve exDrive_solves]
  have cs: "\<forall>i < nat (numNodesOf exDriveNodes).
            exDriveZ ! i = Fin (injected exDriveNodes [exI1, exR1] (int i + 1))"
    by blast
  from vs h ne have "voltageOf (nodeVoltages exLoopResult) (getNodeIndex exLoopNodes ''a'')
       - voltageOf (nodeVoltages exLoopResult) (getNodeIndex exLoopNodes ''b'')
       = Fin (evalue exV1)" by blast
  moreover from cs pos
  have "exDriveZ ! 0 = Fin (injected exDriveNodes [exI1, exR1] (int 0 + 1))" by blast
  then have "exDriveZ ! 0 = Fin (injected exDriveNodes [exI1, exR1] 1)" by simp
  moreover have "injected exDriveNodes [exI1, exR1] 1 = - 2"
    by (simp add: injected_def injectedBy_def getNodeIndex_def exDriveNodes_def example_defs)
  ultimately show ?thesis
    using exLoop_result exLoopResult_nonempty exLoop_solves h ne pos
      exDrive_result exDriveResult_nonempty exDrive_solves by blast
qed

section \<open>The solver returns on well-formed input\<close>

lemma matSet_ok:
  assumes "squareMat S A" and "0 \<le> i" "i < int S" and "0 \<le> j" "j < int S"
  shows "\<exists>A'. matSet A i j v = Inr A' \<and> squareMat S A'"
proof -
  from assms have "inMat A i j" by (simp add: inMat_def squareMat_def)
  then have "matSet A i j v = Inr (A[nat i := (A ! nat i)[nat j := v]])"
    by (simp add: matSet_def)
  moreover have "squareMat S (A[nat i := (A ! nat i)[nat j := v]])"
  proof -
    have "length (A[nat i := (A ! nat i)[nat j := v]] ! k) = S" if "k < S" for k
      using that assms(1) by (cases "k = nat i") (simp_all add: squareMat_def)
    then show ?thesis using assms(1) by (simp add: squareMat_def)
  qed
  ultimately show ?thesis by blast
qed

lemma matGet_ok:
  assumes "squareMat S A" and "0 \<le> i" "i < int S" and "0 \<le> j" "j < int S"
  shows "\<exists>v. matGet A i j = Inr v"
  using assms by (simp add: matGet_def inMat_def squareMat_def)

lemma matAdd_ok:
  assumes "squareMat S A" and "0 \<le> i" "i < int S" and "0 \<le> j" "j < int S"
  shows "\<exists>A'. matAdd A i j v = Inr A' \<and> squareMat S A'"
proof -
  from matGet_ok [OF assms] obtain old where "matGet A i j = Inr old" by blast
  with matSet_ok [OF assms, of "old + v"] show ?thesis by (simp add: matAdd_def)
qed

lemma matSub_ok:
  assumes "squareMat S A" and "0 \<le> i" "i < int S" and "0 \<le> j" "j < int S"
  shows "\<exists>A'. matSub A i j v = Inr A' \<and> squareMat S A'"
proof -
  from matGet_ok [OF assms] obtain old where "matGet A i j = Inr old" by blast
  with matSet_ok [OF assms, of "old - v"] show ?thesis by (simp add: matSub_def)
qed

lemma stampResistor_ok:
  assumes sq: "squareMat S A" and t: "t1 \<le> int S" "t2 \<le> int S"
  shows "\<exists>A'. stampResistor g t1 t2 A = Inr A' \<and> squareMat S A'"
proof -
  have "\<exists>A1. (if t1 > 0 then matAdd A (t1 - 1) (t1 - 1) g else Inr A) = Inr A1 \<and> squareMat S A1"
    using matAdd_ok [OF sq, of "t1 - 1" "t1 - 1" g] sq t by simp
  then obtain A1 where a1: "(if t1 > 0 then matAdd A (t1 - 1) (t1 - 1) g else Inr A) = Inr A1"
    and s1: "squareMat S A1" by blast
  have "\<exists>A2. (if t2 > 0 then matAdd A1 (t2 - 1) (t2 - 1) g else Inr A1) = Inr A2 \<and> squareMat S A2"
    using matAdd_ok [OF s1, of "t2 - 1" "t2 - 1" g] s1 t by simp
  then obtain A2 where a2: "(if t2 > 0 then matAdd A1 (t2 - 1) (t2 - 1) g else Inr A1) = Inr A2"
    and s2: "squareMat S A2" by blast
  have "\<exists>A'. (if t1 > 0 \<and> t2 > 0
       then bindE (matSub A2 (t1 - 1) (t2 - 1) g) (\<lambda>A3. matSub A3 (t2 - 1) (t1 - 1) g)
       else Inr A2) = Inr A' \<and> squareMat S A'"
  proof (cases "t1 > 0 \<and> t2 > 0")
    case True
    with matSub_ok [OF s2, of "t1 - 1" "t2 - 1" g] t obtain A3
      where m1: "matSub A2 (t1 - 1) (t2 - 1) g = Inr A3" and s3: "squareMat S A3" by auto
    from matSub_ok [OF s3, of "t2 - 1" "t1 - 1" g] True t obtain A4
      where "matSub A3 (t2 - 1) (t1 - 1) g = Inr A4" "squareMat S A4" by auto
    with m1 True show ?thesis by simp
  next
    case False
    with s2 show ?thesis by auto
  qed
  with a1 a2 show ?thesis by (simp add: stampResistor_def)
qed

lemma vecAdd_ok:
  assumes "0 \<le> i" "i < int (length z)"
  shows "\<exists>z'. vecAdd z i v = Inr z' \<and> length z' = length z"
  using assms by (simp add: vecAdd_def vecGet_def vecSet_def)

lemma vecSub_ok:
  assumes "0 \<le> i" "i < int (length z)"
  shows "\<exists>z'. vecSub z i v = Inr z' \<and> length z' = length z"
  using assms by (simp add: vecSub_def vecGet_def vecSet_def)

lemma stampCurrentSource_ok:
  assumes t: "tA \<le> int (length z)" "tB \<le> int (length z)"
  shows "\<exists>z'. stampCurrentSource v tA tB z = Inr z' \<and> length z' = length z"
proof -
  have "\<exists>z1. (if tA > 0 then vecAdd z (tA - 1) v else Inr z) = Inr z1 \<and> length z1 = length z"
    using vecAdd_ok [of "tA - 1" z v] t by simp
  then obtain z1 where a1: "(if tA > 0 then vecAdd z (tA - 1) v else Inr z) = Inr z1"
    and l1: "length z1 = length z" by blast
  have "\<exists>z'. (if tB > 0 then vecSub z1 (tB - 1) v else Inr z1) = Inr z' \<and> length z' = length z"
    using vecSub_ok [of "tB - 1" z1 v] t l1 by simp
  with a1 show ?thesis by (auto simp: stampCurrentSource_def)
qed

lemma wellFormed_two:
  assumes "wellFormed e"
  shows "\<exists>a b. terminalIdAt e 0 = Inr a \<and> terminalIdAt e 1 = Inr b"
proof -
  from assms have "2 \<le> length (terminals e)" by (simp add: wellFormed_def split: if_splits)
  then have "terminals e \<noteq> []" "1 < length (terminals e)" by auto
  then show ?thesis by (simp add: terminalIdAt_def)
qed

lemma wellFormed_four:
  assumes "wellFormed e" and "etype e = VCVS"
  shows "\<exists>c d. terminalIdAt e 2 = Inr c \<and> terminalIdAt e 3 = Inr d"
  using assms by (simp add: wellFormed_def terminalIdAt_def)

lemma stampElement_ok:
  assumes wf: "wellFormed e" and sq: "squareMat S A" and lz: "length z = S"
    and g: "\<forall>u. getNodeIndex nodes u \<le> int S"
  shows "\<exists>A' z'. stampElement nodes (A, z) e = Inr (A', z') \<and> squareMat S A' \<and> length z' = S"
proof -
  from wellFormed_two [OF wf] obtain a b where ta: "terminalIdAt e 0 = Inr a"
    and tb: "terminalIdAt e 1 = Inr b" by blast
  show ?thesis
  proof (cases "etype e")
    case Resistor
    from stampResistor_ok [OF sq, of "getNodeIndex nodes a" "getNodeIndex nodes b"
        "ndiv (Fin 1) (evalue e)"] g
    obtain A' where "stampResistor (ndiv (Fin 1) (evalue e)) (getNodeIndex nodes a)
        (getNodeIndex nodes b) A = Inr A'" "squareMat S A'" by auto
    with Resistor ta tb lz show ?thesis by (simp add: Let_def)
  next
    case CurrentSource
    from stampCurrentSource_ok [of "getNodeIndex nodes a" z "getNodeIndex nodes b"
        "Fin (evalue e)"] g lz
    obtain z' where "stampCurrentSource (Fin (evalue e)) (getNodeIndex nodes a)
        (getNodeIndex nodes b) z = Inr z'" "length z' = S" by auto
    with CurrentSource ta tb sq show ?thesis by simp
  next
    case VoltageSource
    with sq lz show ?thesis by simp
  next
    case VCVS
    with sq lz show ?thesis by simp
  qed
qed

lemma stampElement_fold_ok:
  assumes "\<forall>e \<in> set es. wellFormed e" and "squareMat S A" and "length z = S"
    and g: "\<forall>u. getNodeIndex nodes u \<le> int S"
  shows "\<exists>A' z'. foldE (stampElement nodes) (A, z) es = Inr (A', z')
     \<and> squareMat S A' \<and> length z' = S"
  using assms(1-3)
proof (induction es arbitrary: A z)
  case Nil
  then show ?case by simp
next
  case (Cons e es)
  from Cons.prems(1) have wf: "wellFormed e" and wfs: "\<forall>e \<in> set es. wellFormed e" by simp_all
  from stampElement_ok [OF wf Cons.prems(2,3) g] obtain A1 z1
    where s: "stampElement nodes (A, z) e = Inr (A1, z1)" and sq: "squareMat S A1"
      and lz: "length z1 = S" by blast
  from Cons.IH [OF wfs sq lz] s show ?case by simp
qed

lemma gmin_fold_ok:
  assumes "squareMat S A" and "\<forall>i \<in> set js. i < S"
  shows "\<exists>A'. foldE (\<lambda>A i. matAdd A (int i) (int i) v) A js = Inr A' \<and> squareMat S A'"
  using assms
proof (induction js arbitrary: A)
  case Nil
  then show ?case by simp
next
  case (Cons j js)
  from Cons.prems(2) have j: "int j < int S" and js: "\<forall>i \<in> set js. i < S" by simp_all
  from matAdd_ok [OF Cons.prems(1) _ j _ j, of v] obtain A1
    where s: "matAdd A (int j) (int j) v = Inr A1" and sq: "squareMat S A1" by auto
  from Cons.IH [OF sq js] s show ?case by simp
qed

lemma setRowOf_ok:
  assumes "squareMat S A" and "p \<le> int S" and "0 \<le> c" "c < int S"
  shows "\<exists>A'. setRowOf p c v A = Inr A' \<and> squareMat S A'"
  using matSet_ok [OF assms(1), of "p - 1" c v] assms by (simp add: setRowOf_def)

lemma setColOf_ok:
  assumes "squareMat S A" and "p \<le> int S" and "0 \<le> r" "r < int S"
  shows "\<exists>A'. setColOf r p v A = Inr A' \<and> squareMat S A'"
  using matSet_ok [OF assms(1), of r "p - 1" v] assms by (simp add: setColOf_def)

lemma stampVSource_ok:
  assumes wf: "wellFormed e" and sq: "squareMat S A" and lz: "length z = S"
    and g: "\<forall>u. getNodeIndex nodes u \<le> int S" and v: "n + idx < S"
  shows "\<exists>A' z'. stampVSource nodes (int n) (A, z) (idx, e) = Inr (A', z')
     \<and> squareMat S A' \<and> length z' = S"
proof -
  let ?v = "int n + int idx"
  have v0: "0 \<le> ?v" "?v < int S" using v by simp_all
  from wellFormed_two [OF wf] obtain a b where ta: "terminalIdAt e 0 = Inr a"
    and tb: "terminalIdAt e 1 = Inr b" by blast
  let ?p = "getNodeIndex nodes a" and ?q = "getNodeIndex nodes b"
  from g have pq: "?p \<le> int S" "?q \<le> int S" by simp_all
  from setRowOf_ok [OF sq pq(1) v0] obtain A1
    where a1: "setRowOf ?p ?v (Fin 1) A = Inr A1" and s1: "squareMat S A1" by blast
  from setRowOf_ok [OF s1 pq(2) v0] obtain A2
    where a2: "setRowOf ?q ?v (Fin (- 1)) A1 = Inr A2" and s2: "squareMat S A2" by blast
  from setColOf_ok [OF s2 pq(1) v0] obtain A3
    where a3: "setColOf ?v ?p (Fin 1) A2 = Inr A3" and s3: "squareMat S A3" by blast
  from setColOf_ok [OF s3 pq(2) v0] obtain A4
    where a4: "setColOf ?v ?q (Fin (- 1)) A3 = Inr A4" and s4: "squareMat S A4" by blast
  show ?thesis
  proof (cases "etype e")
    case VoltageSource
    have "vecSet z ?v (Fin (evalue e)) = Inr (z[nat ?v := Fin (evalue e)])"
      using v0 lz by (simp add: vecSet_def)
    with VoltageSource ta tb a1 a2 a3 a4 s4 lz show ?thesis by (simp add: Let_def)
  next
    case VCVS
    from wellFormed_four [OF wf VCVS] obtain c d where tc: "terminalIdAt e 2 = Inr c"
      and td: "terminalIdAt e 3 = Inr d" by blast
    from g have cd: "getNodeIndex nodes c \<le> int S" "getNodeIndex nodes d \<le> int S" by simp_all
    from setColOf_ok [OF s4 cd(1) v0] obtain A5
      where a5: "setColOf ?v (getNodeIndex nodes c) (Fin (- evalue e)) A4 = Inr A5"
        and s5: "squareMat S A5" by blast
    from setColOf_ok [OF s5 cd(2) v0] obtain A6
      where a6: "setColOf ?v (getNodeIndex nodes d) (Fin (evalue e)) A5 = Inr A6"
        and s6: "squareMat S A6" by blast
    from VCVS ta tb tc td a1 a2 a3 a4 a5 a6 s6 lz show ?thesis by (simp add: Let_def)
  next
    case Resistor
    with ta tb a1 a2 s2 lz show ?thesis by (simp add: Let_def)
  next
    case CurrentSource
    with ta tb a1 a2 s2 lz show ?thesis by (simp add: Let_def)
  qed
qed

lemma stampVSource_fold_ok:
  assumes "\<forall>e \<in> set vs. wellFormed e" and "squareMat S A" and "length z = S"
    and g: "\<forall>u. getNodeIndex nodes u \<le> int S" and "n + k0 + length vs \<le> S"
  shows "\<exists>A' z'. foldE (stampVSource nodes (int n)) (A, z) (enumerate k0 vs) = Inr (A', z')
     \<and> squareMat S A' \<and> length z' = S"
  using assms(1-3,5)
proof (induction vs arbitrary: k0 A z)
  case Nil
  then show ?case by simp
next
  case (Cons v vs)
  from Cons.prems(1) have wf: "wellFormed v" and wfs: "\<forall>e \<in> set vs. wellFormed e" by simp_all
  from Cons.prems(4) have lt: "n + k0 < S" and rest: "n + Suc k0 + length vs \<le> S" by simp_all
  from stampVSource_ok [OF wf Cons.prems(2,3) g lt] obtain A1 z1
    where s: "stampVSource nodes (int n) (A, z) (k0, v) = Inr (A1, z1)"
      and sq: "squareMat S A1" and lz: "length z1 = S" by blast
  from Cons.IH [OF wfs sq lz rest] s show ?case by simp
qed

lemma assemble_ok:
  assumes wf: "\<forall>e \<in> set elements. wellFormed e" and n: "0 \<le> numNodesOf nodes"
    and g: "\<forall>u. getNodeIndex nodes u \<le> numNodesOf nodes"
  shows "\<exists>A z. assemble nodes elements = Inr (A, z)
     \<and> squareMat (nat (numNodesOf nodes) + length (vSourcesOf elements)) A
     \<and> length z = nat (numNodesOf nodes) + length (vSourcesOf elements)"
proof -
  define n where "n = nat (numNodesOf nodes)"
  define m where "m = length (vSourcesOf elements)"
  have nn: "numNodesOf nodes = int n" using n by (simp add: n_def)
  let ?A0 = "zerosMat (int n + int m) (int n + int m)"
  let ?z0 = "zerosVec (int n + int m)"
  have sq0: "squareMat (n + m) ?A0" by (simp add: squareMat_def zerosMat_def nat_add_distrib)
  have lz0: "length ?z0 = n + m" by (simp add: zerosVec_def nat_add_distrib)
  have g': "\<forall>u. getNodeIndex nodes u \<le> int (n + m)"
  proof
    fix u from g nn have "getNodeIndex nodes u \<le> int n" by simp
    then show "getNodeIndex nodes u \<le> int (n + m)" by simp
  qed
  from stampElement_fold_ok [OF wf sq0 lz0 g'] obtain A1 z1
    where f1: "foldE (stampElement nodes) (?A0, ?z0) elements = Inr (A1, z1)"
      and sq1: "squareMat (n + m) A1" and lz1: "length z1 = n + m" by blast
  have "\<forall>i \<in> set [0..<n]. i < n + m" by simp
  from gmin_fold_ok [OF sq1 this] obtain A2
    where f2: "foldE (\<lambda>A i. matAdd A (int i) (int i) GMIN) A1 [0..<n] = Inr A2"
      and sq2: "squareMat (n + m) A2" by blast
  have wfv: "\<forall>e \<in> set (vSourcesOf elements). wellFormed e" using wf by (simp add: vSourcesOf_def)
  have len: "n + 0 + length (vSourcesOf elements) \<le> n + m" by (simp add: m_def)
  from stampVSource_fold_ok [OF wfv sq2 lz1 g' len] obtain A z
    where f3: "foldE (stampVSource nodes (int n)) (A2, z1) (enumerate 0 (vSourcesOf elements))
             = Inr (A, z)"
      and sq: "squareMat (n + m) A" and lz: "length z = n + m" by blast
  have "assemble nodes elements = Inr (A, z)"
    unfolding assemble_def Let_def nn m_def [symmetric] using f1 f2 f3 by simp
  with sq lz show ?thesis unfolding n_def m_def by blast
qed

lemma extractVoltages_fold_ok:
  assumes "\<forall>i \<in> set js. i < length x"
  shows "\<exists>nv. foldE (\<lambda>nv i. bindE (vecGet x (int i)) (\<lambda>v. Inr (nv(int i + 1 \<mapsto> v)))) nv0 js
     = Inr nv"
  using assms
proof (induction js arbitrary: nv0)
  case Nil
  show ?case by simp
next
  case (Cons j js)
  from Cons.prems have j: "vecGet x (int j) = Inr (x ! j)" and js: "\<forall>i \<in> set js. i < length x"
    by (simp_all add: vecGet_def)
  from Cons.IH [OF js, of "nv0(int j + 1 \<mapsto> x ! j)"] obtain nv
    where "foldE (\<lambda>nv i. bindE (vecGet x (int i)) (\<lambda>v. Inr (nv(int i + 1 \<mapsto> v))))
            (nv0(int j + 1 \<mapsto> x ! j)) js = Inr nv" by blast
  then have "foldE (\<lambda>nv i. bindE (vecGet x (int i)) (\<lambda>v. Inr (nv(int i + 1 \<mapsto> v)))) nv0 (j # js)
      = Inr nv"
    unfolding foldE.simps j bindE.simps .
  then show ?case by blast
qed

lemma deriveVSource_fold_ok:
  assumes "\<forall>e \<in> set vs. wellFormed e" and "n + k0 + length vs \<le> length x"
  shows "\<exists>d'. foldE (deriveVSource nodes (int n) x nv) d (enumerate k0 vs) = Inr d'"
  using assms
proof (induction vs arbitrary: k0 d)
  case Nil
  show ?case by simp
next
  case (Cons v vs)
  from Cons.prems(1) have wf: "wellFormed v" and wfs: "\<forall>e \<in> set vs. wellFormed e" by simp_all
  from wellFormed_two [OF wf] obtain a b where t: "terminalIdAt v 0 = Inr a"
    "terminalIdAt v 1 = Inr b" by blast
  from Cons.prems(2) have "vecGet x (int n + int k0) = Inr (x ! (n + k0))"
    by (simp add: vecGet_def nat_add_distrib)
  with t obtain d1 where s: "deriveVSource nodes (int n) x nv d (k0, v) = Inr d1"
    by (cases d) (simp add: Let_def)
  from Cons.prems(2) have "n + Suc k0 + length vs \<le> length x" by simp
  from Cons.IH [OF wfs this, of d1] s show ?case by simp
qed

lemma deriveElement_fold_ok:
  assumes "\<forall>e \<in> set es. wellFormed e"
  shows "\<exists>d'. foldE (deriveElement nodes nv) d es = Inr d'"
  using assms
proof (induction es arbitrary: d)
  case Nil
  show ?case by simp
next
  case (Cons e es)
  from Cons.prems have wf: "wellFormed e" and wfs: "\<forall>e \<in> set es. wellFormed e" by simp_all
  from wellFormed_two [OF wf] obtain a b where t: "terminalIdAt e 0 = Inr a"
    "terminalIdAt e 1 = Inr b" by blast
  then obtain d1 where s: "deriveElement nodes nv d e = Inr d1"
    by (cases d; cases "etype e") (simp_all add: Let_def)
  from Cons.IH [OF wfs, of d1] s show ?case by simp
qed

lemma deriveResult_ok:
  assumes wf: "\<forall>e \<in> set elements. wellFormed e" and n: "0 \<le> numNodesOf nodes"
    and lx: "nat (numNodesOf nodes) + length (vSourcesOf elements) \<le> length x"
  shows "\<exists>r. deriveResult nodes elements x = Inr r"
proof -
  define n where "n = nat (numNodesOf nodes)"
  have nn: "numNodesOf nodes = int n" using n by (simp add: n_def)
  have "\<forall>i \<in> set [0..<n]. i < length x" using lx by (simp add: n_def)
  from extractVoltages_fold_ok [OF this] obtain nv
    where ev: "extractVoltages (int n) x = Inr nv" by (auto simp: extractVoltages_def)
  have wfv: "\<forall>e \<in> set (vSourcesOf elements). wellFormed e" using wf by (simp add: vSourcesOf_def)
  have "n + 0 + length (vSourcesOf elements) \<le> length x" using lx by (simp add: n_def)
  from deriveVSource_fold_ok [OF wfv this] obtain d1
    where f1: "foldE (deriveVSource nodes (int n) x nv) (Map.empty, Map.empty)
                 (enumerate 0 (vSourcesOf elements)) = Inr d1" by blast
  from deriveElement_fold_ok [OF wf] obtain d2
    where f2: "foldE (deriveElement nodes nv) d1 elements = Inr d2" by blast
  show ?thesis
    unfolding deriveResult_def Let_def nn using ev f1 f2 by (cases d2) simp
qed

lemma solveCircuit_ok:
  assumes wf: "\<forall>e \<in> set elements. wellFormed e"
    and ls: "\<forall>A z x. linsolve A z = Some x \<longrightarrow> length A \<le> length x"
  shows "\<exists>r. solveCircuit linsolve elements wires = Some (Inr r)"
proof (cases "elements = []")
  case True
  then show ?thesis by (simp add: solveCircuit_def)
next
  case False
  from extractNodes_shape [of elements wires] obtain nodes
    where ex: "extractNodes elements wires = Some nodes" by blast
  show ?thesis
  proof (cases "numNodesOf nodes \<le> 0")
    case True
    with False ex show ?thesis by (simp add: solveCircuit_def)
  next
    case pos: False
    then have n: "0 \<le> numNodesOf nodes" by simp
    have g: "\<forall>u. getNodeIndex nodes u \<le> numNodesOf nodes"
      using extractNodes_index_bound [OF ex] by simp
    from assemble_ok [OF wf n g] obtain A z where asm: "assemble nodes elements = Inr (A, z)"
      and sq: "squareMat (nat (numNodesOf nodes) + length (vSourcesOf elements)) A" by blast
    show ?thesis
    proof (cases "linsolve A z")
      case None
      with False ex pos asm show ?thesis by (simp add: solveCircuit_def)
    next
      case (Some x)
      with ls have "length A \<le> length x" by blast
      with sq have "nat (numNodesOf nodes) + length (vSourcesOf elements) \<le> length x"
        by (simp add: squareMat_def)
      from deriveResult_ok [OF wf n this] obtain r
        where "deriveResult nodes elements x = Inr r" by blast
      with Some False ex pos asm show ?thesis by (simp add: solveCircuit_def)
    qed
  qed
qed

section \<open>The fallback index of \<open>getNodeIndex\<close>\<close>

text \<open>
  The reference solver returns vectors of the size of the system, so with it the solver
  returns a result for every list of well-formed elements.
\<close>

lemma those_length: "those xs = Some ys \<Longrightarrow> length ys = length xs"
proof (induction xs arbitrary: ys)
  case Nil
  then show ?case by simp
next
  case (Cons x xs)
  then show ?case by (cases x; cases "those xs") auto
qed

lemma exactSolve_length:
  assumes "exactSolve A z = Some x"
  shows "length x = length A"
proof -
  from assms obtain Ar where a: "those (map (\<lambda>row. those (map finOf row)) A) = Some Ar"
    and x: "length x = length Ar"
    by (auto simp: exactSolve_def split: option.splits if_splits)
  from those_length [OF a] x show ?thesis by simp
qed

lemma solveCircuit_exact_ok:
  assumes "\<forall>e \<in> set elements. wellFormed e"
  shows "\<exists>r. solveCircuit exactSolve elements wires = Some (Inr r)"
proof -
  have "\<forall>A z x. exactSolve A z = Some x \<longrightarrow> length A \<le> length x"
    using exactSolve_length by simp
  with assms show ?thesis by (rule solveCircuit_ok)
qed

text \<open>
  \<open>getNodeIndex\<close> returns -1 for an id that no node holds. The guards \<open>> 0\<close> of the assembly
  skip that index as they skip ground, so its stamps are those of index 0. Within
  \<open>solveCircuit\<close> the nodes come from the same elements and every terminal of an element is
  found (lemma \<open>extractNodes_resolves\<close>), so the index -1 does not arise there.
\<close>

lemma fallback_stamps:
  "stampResistor g (- 1) t2 A = stampResistor g 0 t2 A"
  "stampResistor g t1 (- 1) A = stampResistor g t1 0 A"
  "stampCurrentSource v (- 1) tB z = stampCurrentSource v 0 tB z"
  "stampCurrentSource v tA (- 1) z = stampCurrentSource v tA 0 z"
  "setRowOf (- 1) col v A = setRowOf 0 col v A"
  "setColOf row (- 1) v A = setColOf row 0 v A"
  by (simp_all add: stampResistor_def stampCurrentSource_def setRowOf_def setColOf_def)

section \<open>Singular systems\<close>

subsection \<open>A determinant with two equal rows\<close>

text \<open>
  Exchanging two neighbouring rows of equal length changes the sign of the determinant, so
  the determinant of a matrix with two equal rows is 0.
\<close>

lemma removeAt_Nil: "removeAt j [] = []"
  by (simp add: removeAt_def)

lemma removeAt_Cons_0: "removeAt 0 (x # xs) = xs"
  by (simp add: removeAt_def)

lemma removeAt_Cons_Suc: "removeAt (Suc j) (x # xs) = x # removeAt j xs"
  by (simp add: removeAt_def)

lemma removeAt_commute: "i < j \<Longrightarrow> removeAt i (removeAt j xs) = removeAt (j - 1) (removeAt i xs)"
proof (induction xs arbitrary: i j)
  case Nil
  show ?case by (simp add: removeAt_Nil)
next
  case (Cons x xs)
  from Cons.prems obtain j' where j: "j = Suc j'" by (cases j) auto
  show ?case
  proof (cases i)
    case 0
    then show ?thesis by (simp add: j removeAt_Cons_0 removeAt_Cons_Suc)
  next
    case (Suc i')
    with Cons.prems j have lt: "i' < j'" by simp
    then obtain j'' where j': "j' = Suc j''" by (cases j') auto
    from Cons.IH [OF lt] show ?thesis
      by (simp add: j Suc j' removeAt_Cons_Suc)
  qed
qed

lemma length_removeAt: "j < length xs \<Longrightarrow> length (removeAt j xs) = length xs - 1"
  by (simp add: removeAt_def)

lemma removeAt_nth:
  "j < length xs \<Longrightarrow> k < length xs - 1 \<Longrightarrow> removeAt j xs ! k = xs ! (if k < j then k else Suc k)"
  by (auto simp: removeAt_def nth_append min_def)

lemma det_expand2:
  assumes u: "length u = n" and v: "length v = n"
  shows "det (u # v # rs)
     = (\<Sum>j<n. \<Sum>c \<in> {c. c \<in> {..<n} \<and> j \<noteq> c}.
          (- 1) ^ (j + (if c < j then c else c - 1)) * u ! j * v ! c
          * det (map (\<lambda>row. removeAt (if c < j then c else c - 1) (removeAt j row)) rs))"
proof -
  have inner: "det (map (removeAt j) (v # rs))
      = (\<Sum>c \<in> {c. c \<in> {..<n} \<and> j \<noteq> c}.
          (- 1) ^ (if c < j then c else c - 1) * v ! c
          * det (map (\<lambda>row. removeAt (if c < j then c else c - 1) (removeAt j row)) rs))"
    if j: "j < n" for j
  proof -
    have len: "length (removeAt j v) = n - 1" using j v by (simp add: length_removeAt)
    have "det (map (removeAt j) (v # rs))
        = (\<Sum>k<n - 1. (- 1) ^ k * removeAt j v ! k
             * det (map (\<lambda>row. removeAt k (removeAt j row)) rs))"
      by (simp add: len interv_sum_list_conv_sum_set_nat atLeast0LessThan comp_def)
    also have "\<dots> = (\<Sum>c \<in> {c. c \<in> {..<n} \<and> j \<noteq> c}.
          (- 1) ^ (if c < j then c else c - 1) * v ! c
          * det (map (\<lambda>row. removeAt (if c < j then c else c - 1) (removeAt j row)) rs))"
    proof (rule sum.reindex_bij_witness [where i = "\<lambda>c. if c < j then c else c - 1"
          and j = "\<lambda>k. if k < j then k else Suc k"])
      fix k assume "k \<in> {..<n - 1}"
      then show "(if (if k < j then k else Suc k) < j then (if k < j then k else Suc k)
          else (if k < j then k else Suc k) - 1) = k" by auto
      from \<open>k \<in> {..<n - 1}\<close> show "(if k < j then k else Suc k) \<in> {c. c \<in> {..<n} \<and> j \<noteq> c}"
        by auto
      from \<open>k \<in> {..<n - 1}\<close> j v
      have "removeAt j v ! k = v ! (if k < j then k else Suc k)"
        by (intro removeAt_nth) simp_all
      then show "(- 1) ^ (if (if k < j then k else Suc k) < j then if k < j then k else Suc k
                   else (if k < j then k else Suc k) - 1)
          * v ! (if k < j then k else Suc k)
          * det (map (\<lambda>row. removeAt (if (if k < j then k else Suc k) < j
                   then if k < j then k else Suc k
                   else (if k < j then k else Suc k) - 1) (removeAt j row)) rs)
          = (- 1) ^ k * removeAt j v ! k * det (map (\<lambda>row. removeAt k (removeAt j row)) rs)"
        by auto
    next
      fix c assume c: "c \<in> {c. c \<in> {..<n} \<and> j \<noteq> c}"
      then show "(if (if c < j then c else c - 1) < j then (if c < j then c else c - 1)
          else Suc (if c < j then c else c - 1)) = c" by auto
      from c j show "(if c < j then c else c - 1) \<in> {..<n - 1}" by auto
    qed
    finally show ?thesis .
  qed
  have "det (u # v # rs) = (\<Sum>j<n. (- 1) ^ j * u ! j * det (map (removeAt j) (v # rs)))"
    using u by (simp add: interv_sum_list_conv_sum_set_nat atLeast0LessThan del: list.map)
  also have "\<dots> = (\<Sum>j<n. (- 1) ^ j * u ! j
      * (\<Sum>c \<in> {c. c \<in> {..<n} \<and> j \<noteq> c}.
          (- 1) ^ (if c < j then c else c - 1) * v ! c
          * det (map (\<lambda>row. removeAt (if c < j then c else c - 1) (removeAt j row)) rs)))"
    by (rule sum.cong [OF refl]) (simp add: inner del: list.map)
  also have "\<dots> = (\<Sum>j<n. \<Sum>c \<in> {c. c \<in> {..<n} \<and> j \<noteq> c}.
          (- 1) ^ (j + (if c < j then c else c - 1)) * u ! j * v ! c
          * det (map (\<lambda>row. removeAt (if c < j then c else c - 1) (removeAt j row)) rs))"
    by (simp add: sum_distrib_left power_add mult_ac)
  finally show ?thesis .
qed


lemma det_swap_top:
  assumes "length a = length b"
  shows "det (a # b # rs) = - det (b # a # rs)"
proof -
  define n where "n = length a"
  have a: "length a = n" and b: "length b = n" using assms n_def by simp_all
  define F where "F u v j c = (- 1) ^ (j + (if c < j then c else c - 1)) * u ! j * v ! c
          * det (map (\<lambda>row. removeAt (if c < j then c else c - 1) (removeAt j row)) rs)"
    for u v :: "real list" and j c :: nat
  have ab: "det (a # b # rs) = (\<Sum>j<n. \<Sum>c \<in> {c. c \<in> {..<n} \<and> j \<noteq> c}. F a b j c)"
    unfolding F_def by (rule det_expand2 [OF a b])
  have sets: "{j. j \<in> {..<n} \<and> j \<noteq> c} = {j. j \<in> {..<n} \<and> c \<noteq> j}" for c by auto
  have ba: "det (b # a # rs) = (\<Sum>c<n. \<Sum>j \<in> {j. j \<in> {..<n} \<and> j \<noteq> c}. F b a c j)"
    unfolding F_def sets by (rule det_expand2 [OF b a])
  have half: "F u v j c = - F v u c j" if lt: "c < j" for u v j c
  proof -
    let ?L = "det (map (\<lambda>row. removeAt c (removeAt j row)) rs)"
    let ?R = "det (map (\<lambda>row. removeAt (j - 1) (removeAt c row)) rs)"
    from lt obtain j' where j: "j = Suc j'" by (cases j) auto
    have "map (\<lambda>row. removeAt c (removeAt j row)) rs
        = map (\<lambda>row. removeAt (j - 1) (removeAt c row)) rs"
      by (rule map_cong [OF refl]) (rule removeAt_commute [OF lt])
    then have d: "?L = ?R" by (simp only:)
    have 1: "F u v j c = (- 1) ^ (j + c) * u ! j * v ! c * ?L" using lt by (simp add: F_def)
    have 2: "F v u c j = (- 1) ^ (c + (j - 1)) * v ! c * u ! j * ?R" using lt by (simp add: F_def)
    have 3: "(- 1 :: real) ^ (j + c) = - ((- 1) ^ (c + (j - 1)))" by (simp add: j add.commute)
    show ?thesis unfolding 1 2 3 d by simp
  qed
  have anti: "F a b j c = - F b a c j" if "j \<noteq> c" for j c
  proof (cases "c < j")
    case True
    then show ?thesis by (rule half)
  next
    case False
    with that have "j < c" by simp
    from half [OF this, of b a] show ?thesis by simp
  qed
  have "det (a # b # rs) = (\<Sum>c<n. \<Sum>j \<in> {j. j \<in> {..<n} \<and> j \<noteq> c}. F a b j c)"
    unfolding ab by (rule sum.swap_restrict) simp_all
  also have "\<dots> = (\<Sum>c<n. \<Sum>j \<in> {j. j \<in> {..<n} \<and> j \<noteq> c}. - F b a c j)"
    by (intro sum.cong refl) (simp add: anti)
  also have "\<dots> = - det (b # a # rs)" unfolding ba by (simp add: sum_negf)
  finally show ?thesis .
qed


lemma length_removeAt_eq: "length a = length b \<Longrightarrow> length (removeAt j a) = length (removeAt j b)"
  by (simp add: removeAt_def)

lemma det_swap_adjacent:
  assumes "length a = length b"
  shows "det (pre @ a # b # rs) = - det (pre @ b # a # rs)"
  using assms
proof (induction "length pre" arbitrary: pre a b rs)
  case 0
  then have "pre = []" by simp
  with det_swap_top [OF "0.prems", of rs] show ?case by (simp del: det.simps)
next
  case (Suc n)
  then obtain p pre' where pre: "pre = p # pre'" and n: "n = length pre'"
    by (cases pre) auto
  have step: "det (map (removeAt j) (pre' @ a # b # rs))
      = - det (map (removeAt j) (pre' @ b # a # rs))" for j
  proof -
    have "n = length (map (removeAt j) pre')" using n by simp
    from Suc.hyps(1) [OF this length_removeAt_eq [OF Suc.prems], of j "map (removeAt j) rs"]
    show ?thesis by simp
  qed
  have "det (pre @ a # b # rs)
      = (\<Sum>j<length p. (- 1) ^ j * p ! j * det (map (removeAt j) (pre' @ a # b # rs)))"
    by (simp add: pre interv_sum_list_conv_sum_set_nat atLeast0LessThan del: map_append)
  also have "\<dots> = (\<Sum>j<length p. - ((- 1) ^ j * p ! j * det (map (removeAt j) (pre' @ b # a # rs))))"
    by (rule sum.cong [OF refl]) (simp only: step mult_minus_right)
  also have "\<dots> = - det (pre @ b # a # rs)"
    by (simp add: pre interv_sum_list_conv_sum_set_nat atLeast0LessThan sum_negf del: map_append)
  finally show ?case .
qed

lemma det_equal_rows:
  assumes "\<forall>row \<in> set mid. length row = length a"
  shows "det (pre @ a # mid @ a # rs) = 0"
  using assms
proof (induction mid arbitrary: pre)
  case Nil
  have "det (pre @ a # a # rs) = - det (pre @ a # a # rs)" by (rule det_swap_adjacent [OF refl])
  then have "det (pre @ a # a # rs) = 0" by linarith
  then show ?case by (simp del: det.simps)
next
  case (Cons m mid)
  from Cons.prems have l: "length a = length m" and r: "\<forall>row \<in> set mid. length row = length a"
    by simp_all
  from det_swap_adjacent [OF l, of pre "mid @ a # rs"]
  have "det (pre @ a # (m # mid) @ a # rs) = - det ((pre @ [m]) @ a # mid @ a # rs)"
    by (simp del: det.simps)
  also have "\<dots> = 0" using Cons.IH [OF r, of "pre @ [m]"] by (simp del: det.simps)
  finally show ?case .
qed

lemma det_equal_rows_nth:
  assumes ij: "i < j" "j < length M" and eq: "M ! i = M ! j"
    and len: "\<forall>row \<in> set M. length row = L"
  shows "det M = 0"
proof -
  from ij have i: "i < length M" by simp
  define P where "P = take i M"
  define a where "a = M ! i"
  define D where "D = drop (Suc i) M"
  define Q where "Q = take (j - Suc i) D"
  define R where "R = drop (Suc (j - Suc i)) D"
  have j': "j - Suc i < length D" using ij by (simp add: D_def)
  have Dj: "D ! (j - Suc i) = a" using ij eq by (simp add: D_def a_def)
  have "D = Q @ D ! (j - Suc i) # R" unfolding Q_def R_def using j' by (rule id_take_nth_drop)
  then have D1: "D = Q @ a # R" unfolding Dj .
  have "M = P @ a # D" unfolding P_def a_def D_def using i by (rule id_take_nth_drop)
  also note D1
  finally have M2: "M = P @ a # Q @ a # R" .
  have "\<forall>row \<in> set Q. length row = length a"
  proof
    fix row assume "row \<in> set Q"
    then have "row \<in> set M" unfolding Q_def D_def by (meson in_set_dropD in_set_takeD)
    moreover have "a \<in> set M" unfolding a_def using i by simp
    ultimately show "length row = length a" using len by simp
  qed
  then have "det (P @ a # Q @ a # R) = 0" by (rule det_equal_rows)
  then show ?thesis unfolding M2 [symmetric] .
qed

subsection \<open>The empty result\<close>

lemma contradictD:
  assumes "contradict nodes s1 s2"
  shows "\<exists>a1 b1 a2 b2. etype s1 = VoltageSource \<and> etype s2 = VoltageSource
    \<and> evalue s1 \<noteq> evalue s2
    \<and> terminalIdAt s1 0 = Inr a1 \<and> terminalIdAt s1 1 = Inr b1
    \<and> terminalIdAt s2 0 = Inr a2 \<and> terminalIdAt s2 1 = Inr b2
    \<and> getNodeIndex nodes a1 = getNodeIndex nodes a2
    \<and> getNodeIndex nodes b1 = getNodeIndex nodes b2"
  using assms unfolding contradict_def by (auto split: sum.splits)

lemma exactSolve_singular: "singularMat A \<Longrightarrow> exactSolve A z = None"
  by (auto simp: singularMat_def realsOf_def exactSolve_def split: option.splits)

lemma solveCircuit_unsolved:
  assumes "extractNodes elements wires = Some nodes" and "assemble nodes elements = Inr (A, z)"
    and "linsolve A z = None"
  shows "solveCircuit linsolve elements wires = Some (Inr emptyResult)"
  using assms by (simp add: solveCircuit_def)

lemma contradict_unsolved:
  assumes ex: "extractNodes elements wires = Some nodes"
    and asm: "assemble nodes elements = Inr (A, z)"
    and k: "k1 < length (vSourcesOf elements)" "k2 < length (vSourcesOf elements)"
    and c: "contradict nodes (vSourcesOf elements ! k1) (vSourcesOf elements ! k2)"
    and sound: "\<forall>x. linsolve A z = Some x \<longrightarrow> solves A x z"
  shows "solveCircuit linsolve elements wires = Some (Inr emptyResult)"
proof (cases "0 \<le> numNodesOf nodes")
  case True
  from contradictD [OF c] obtain a1 b1 a2 b2
    where v: "etype (vSourcesOf elements ! k1) = VoltageSource"
      "etype (vSourcesOf elements ! k2) = VoltageSource"
      and d: "evalue (vSourcesOf elements ! k1) \<noteq> evalue (vSourcesOf elements ! k2)"
      and t1: "terminalIdAt (vSourcesOf elements ! k1) 0 = Inr a1"
        "terminalIdAt (vSourcesOf elements ! k1) 1 = Inr b1"
      and t2: "terminalIdAt (vSourcesOf elements ! k2) 0 = Inr a2"
        "terminalIdAt (vSourcesOf elements ! k2) 1 = Inr b2"
      and s: "getNodeIndex nodes a1 = getNodeIndex nodes a2"
        "getNodeIndex nodes b1 = getNodeIndex nodes b2" by blast
  have "\<not> solves A x z" for x
    by (rule contradictory_sources_unsolvable [OF ex True asm k v t1 t2 s d])
  with sound have "linsolve A z = None" by (cases "linsolve A z") auto
  with ex asm show ?thesis by (rule solveCircuit_unsolved)
next
  case False
  with ex show ?thesis by (simp add: solveCircuit_def)
qed

subsection \<open>Systems that have no solution\<close>

lemma those_nth: "those xs = Some ys \<Longrightarrow> i < length xs \<Longrightarrow> xs ! i = Some (ys ! i)"
proof (induction xs arbitrary: ys i)
  case Nil
  then show ?case by simp
next
  case (Cons x xs)
  from Cons.prems(1) obtain y ys' where x: "x = Some y" and t: "those xs = Some ys'"
    and ys: "ys = y # ys'" by (auto split: option.splits)
  show ?case
  proof (cases i)
    case 0
    then show ?thesis by (simp add: x ys)
  next
    case (Suc i')
    with Cons.prems(2) have "i' < length xs" by simp
    from Cons.IH [OF t this] show ?thesis by (simp add: Suc ys)
  qed
qed

lemma realsOf_row:
  assumes "realsOf A = Some Ar" and "i < length A"
  shows "those (map finOf (A ! i)) = Some (Ar ! i)"
  using those_nth [OF assms(1) [unfolded realsOf_def], of i] assms(2) by simp

lemma exactSolve_Some:
  assumes "exactSolve A z = Some x"
  shows "\<exists>Ar. realsOf A = Some Ar \<and> length Ar = length A
     \<and> (\<forall>row \<in> set Ar. length row = length Ar) \<and> det Ar \<noteq> 0"
proof -
  from assms obtain Ar where a: "realsOf A = Some Ar"
    and l: "list_all (\<lambda>row. length row = length Ar) Ar" and d: "det Ar \<noteq> 0"
    unfolding exactSolve_def realsOf_def by (auto split: option.splits if_splits)
  from a have "length Ar = length A" unfolding realsOf_def by (auto dest: those_length)
  with a l d show ?thesis by (auto simp: list_all_iff)
qed

lemma exactSolve_equal_rows:
  assumes ij: "i < j" "j < length A" and eq: "A ! i = A ! j"
  shows "exactSolve A z = None"
proof (rule ccontr)
  assume "exactSolve A z \<noteq> None"
  then obtain x where "exactSolve A z = Some x" by auto
  from exactSolve_Some [OF this] obtain Ar where a: "realsOf A = Some Ar"
    and l: "length Ar = length A" and sq: "\<forall>row \<in> set Ar. length row = length Ar"
    and d: "det Ar \<noteq> 0" by blast
  from ij have i: "i < length A" by simp
  from realsOf_row [OF a i] realsOf_row [OF a ij(2)] eq have "Ar ! i = Ar ! j" by simp
  from det_equal_rows_nth [OF ij(1) _ this sq] ij(2) l have "det Ar = 0" by simp
  with d show False by simp
qed

lemma contradict_rows:
  assumes ex: "extractNodes elements wires = Some nodes" and n: "0 \<le> numNodesOf nodes"
    and asm: "assemble nodes elements = Inr (A, z)"
    and k: "k1 < length (vSourcesOf elements)" "k2 < length (vSourcesOf elements)"
    and c: "contradict nodes (vSourcesOf elements ! k1) (vSourcesOf elements ! k2)"
  shows "k1 \<noteq> k2 \<and> nat (numNodesOf nodes) + k1 < length A
    \<and> nat (numNodesOf nodes) + k2 < length A
    \<and> A ! (nat (numNodesOf nodes) + k1) = A ! (nat (numNodesOf nodes) + k2)"
proof -
  from contradictD [OF c] obtain a1 b1 a2 b2
    where v: "etype (vSourcesOf elements ! k1) = VoltageSource"
      "etype (vSourcesOf elements ! k2) = VoltageSource"
      and d: "evalue (vSourcesOf elements ! k1) \<noteq> evalue (vSourcesOf elements ! k2)"
      and t1: "terminalIdAt (vSourcesOf elements ! k1) 0 = Inr a1"
        "terminalIdAt (vSourcesOf elements ! k1) 1 = Inr b1"
      and t2: "terminalIdAt (vSourcesOf elements ! k2) 0 = Inr a2"
        "terminalIdAt (vSourcesOf elements ! k2) 1 = Inr b2"
      and s: "getNodeIndex nodes a1 = getNodeIndex nodes a2"
        "getNodeIndex nodes b1 = getNodeIndex nodes b2" by blast
  have g: "\<forall>u. getNodeIndex nodes u \<le> numNodesOf nodes"
    using extractNodes_index_bound [OF ex] by simp
  note R1 = assemble_source_row [OF asm n g k(1) v(1) t1]
  note R2 = assemble_source_row [OF asm n g k(2) v(2) t2]
  from d have "k1 \<noteq> k2" by auto
  moreover from R1(2) R2(2) s
  have "A ! (nat (numNodesOf nodes) + k1) = A ! (nat (numNodesOf nodes) + k2)" by simp
  moreover have "nat (numNodesOf nodes) + k1 < length A" "nat (numNodesOf nodes) + k2 < length A"
    using R1(1) k by simp_all
  ultimately show ?thesis by blast
qed

lemma contradict_exact:
  assumes ex: "extractNodes elements wires = Some nodes"
    and asm: "assemble nodes elements = Inr (A, z)"
    and k: "k1 < length (vSourcesOf elements)" "k2 < length (vSourcesOf elements)"
    and c: "contradict nodes (vSourcesOf elements ! k1) (vSourcesOf elements ! k2)"
  shows "solveCircuit exactSolve elements wires = Some (Inr emptyResult)"
proof (cases "0 \<le> numNodesOf nodes")
  case True
  let ?n = "nat (numNodesOf nodes)"
  from contradict_rows [OF ex True asm k c]
  have ne: "k1 \<noteq> k2" and l: "?n + k1 < length A" "?n + k2 < length A"
    and r: "A ! (?n + k1) = A ! (?n + k2)" by simp_all
  have "exactSolve A z = None"
  proof (cases "k1 < k2")
    case True
    then have "?n + k1 < ?n + k2" by simp
    from this l(2) r show ?thesis by (rule exactSolve_equal_rows)
  next
    case False
    with ne have "?n + k2 < ?n + k1" by simp
    from this l(1) r [symmetric] show ?thesis by (rule exactSolve_equal_rows)
  qed
  with ex asm show ?thesis by (rule solveCircuit_unsolved)
next
  case False
  with ex show ?thesis by (simp add: solveCircuit_def)
qed

text \<open>
  Claim C3. Whenever the assembled matrix is singular, \<open>solveCircuit\<close> returns the result
  with the three maps empty, and so no value that is not a number. In particular this is
  what it returns when two independent voltage sources of different values have their
  terminals 0 on one node and their terminals 1 on one node: the matrix assembled for them
  has two equal rows, so its determinant is 0, and the right-hand sides of the two rows
  differ, so no vector solves the system. The linear solve is the reference solver of the
  specification, which fails on a singular matrix; for contradicting sources the same holds
  with every linear solve that returns solutions only.
\<close>

theorem singular_system_empty:
  assumes "extractNodes elements wires = Some nodes" and "assemble nodes elements = Inr (A, z)"
  shows "(singularMat A \<longrightarrow>
           solveCircuit exactSolve elements wires = Some (Inr emptyResult)
           \<and> nodeVoltages emptyResult = Map.empty \<and> elementCurrents emptyResult = Map.empty
           \<and> elementPower emptyResult = Map.empty)
     \<and> (k1 < length (vSourcesOf elements) \<and> k2 < length (vSourcesOf elements)
          \<and> contradict nodes (vSourcesOf elements ! k1) (vSourcesOf elements ! k2)
        \<longrightarrow> solveCircuit exactSolve elements wires = Some (Inr emptyResult)
          \<and> ((\<forall>x. linsolve A z = Some x \<longrightarrow> solves A x z)
               \<longrightarrow> solveCircuit linsolve elements wires = Some (Inr emptyResult)))"
proof -
  have "solveCircuit exactSolve elements wires = Some (Inr emptyResult)" if "singularMat A"
  proof -
    from that have "exactSolve A z = None" by (rule exactSolve_singular)
    with assms show ?thesis by (rule solveCircuit_unsolved)
  qed
  moreover have "nodeVoltages emptyResult = Map.empty" "elementCurrents emptyResult = Map.empty"
    "elementPower emptyResult = Map.empty" by (simp_all add: emptyResult_def)
  moreover have "solveCircuit exactSolve elements wires = Some (Inr emptyResult)"
    if "k1 < length (vSourcesOf elements)" "k2 < length (vSourcesOf elements)"
      "contradict nodes (vSourcesOf elements ! k1) (vSourcesOf elements ! k2)"
    using assms that by (rule contradict_exact)
  moreover have "solveCircuit linsolve elements wires = Some (Inr emptyResult)"
    if "k1 < length (vSourcesOf elements)" "k2 < length (vSourcesOf elements)"
      "contradict nodes (vSourcesOf elements ! k1) (vSourcesOf elements ! k2)"
      "\<forall>x. linsolve A z = Some x \<longrightarrow> solves A x z"
    using assms that by (rule contradict_unsolved)
  ultimately show ?thesis by blast
qed

theorem singular_system_empty_witness:
  "extractNodes [exV1, exV2] exParallel = Some exParallelNodes
   \<and> assemble exParallelNodes [exV1, exV2] = Inr (exParallelA, exParallelZ)
   \<and> singularMat exParallelA
   \<and> vSourcesOf [exV1, exV2] = [exV1, exV2]
   \<and> contradict exParallelNodes exV1 exV2
   \<and> exactSolve exParallelA exParallelZ = None
   \<and> solveCircuit exactSolve [exV1, exV2] exParallel = Some (Inr emptyResult)"
proof -
  have s: "singularMat exParallelA"
    by (simp add: singularMat_def realsOf_def finOf_def exParallelA_def removeAt_def)
  have vs: "vSourcesOf [exV1, exV2] = [exV1, exV2]"
    by (simp add: vSourcesOf_def exV1_def exV2_def)
  have c: "contradict exParallelNodes exV1 exV2"
    by (simp add: contradict_def terminalIdAt_def getNodeIndex_def exParallelNodes_def
        example_defs)
  have k: "0 < length (vSourcesOf [exV1, exV2])" "1 < length (vSourcesOf [exV1, exV2])"
    by (simp_all add: vs)
  have c': "contradict exParallelNodes (vSourcesOf [exV1, exV2] ! 0) (vSourcesOf [exV1, exV2] ! 1)"
    using c by (simp add: vs)
  have sound: "\<forall>x. exactSolve exParallelA exParallelZ = Some x
      \<longrightarrow> solves exParallelA x exParallelZ"
    by (simp add: exParallel_solve)
  note T = singular_system_empty [of "[exV1, exV2]" exParallel exParallelNodes exParallelA
      exParallelZ 0 1 exactSolve, OF exParallel_nodes exParallel_assemble]
  from T s have "solveCircuit exactSolve [exV1, exV2] exParallel = Some (Inr emptyResult)"
    by blast
  moreover from T k c' sound
  have "solveCircuit exactSolve [exV1, exV2] exParallel = Some (Inr emptyResult)" by blast
  ultimately show ?thesis
    using exParallel_nodes exParallel_assemble s vs c exParallel_solve by blast
qed

end
